theory Spec2Isabelle
  imports Complex_Main
begin

section \<open>Python strings\<close>

text \<open>
  A Python \<open>str\<close> is a sequence of code points. The model covers the code points
  below 256 (Latin-1), one \<^typ>\<open>char\<close> each, and gives the character classes the
  values Python's Unicode database gives them there.
\<close>

definition code :: "char \<Rightarrow> nat" where
  "code c = of_char c"

text \<open>\<open>str.isspace\<close>, which is also what \<open>strip()\<close>, \<open>split()\<close> and the pattern \<open>\s\<close> use.\<close>

definition is_space :: "char \<Rightarrow> bool" where
  "is_space c = (let n = code c in
     (9 \<le> n \<and> n \<le> 13) \<or> (28 \<le> n \<and> n \<le> 32) \<or> n = 133 \<or> n = 160)"

text \<open>The pattern \<open>\d\<close>: the decimal digits; below 256 these are \<open>0\<close> to \<open>9\<close>.\<close>

definition is_digit :: "char \<Rightarrow> bool" where
  "is_digit c = (let n = code c in 48 \<le> n \<and> n \<le> 57)"

text \<open>The pattern class \<open>[ \t]\<close>.\<close>

definition is_blank :: "char \<Rightarrow> bool" where
  "is_blank c = (let n = code c in n = 32 \<or> n = 9)"

text \<open>
  The word characters of \<open>\b\<close>: alphanumeric code points and the underscore. Below 256
  the alphanumerics are the ASCII letters and digits, the ordinal indicators, the micro
  sign, the superscript digits, the vulgar fractions and the accented letters.
\<close>

definition is_word :: "char \<Rightarrow> bool" where
  "is_word c = (let n = code c in
     (48 \<le> n \<and> n \<le> 57) \<or> (65 \<le> n \<and> n \<le> 90) \<or> n = 95 \<or> (97 \<le> n \<and> n \<le> 122)
     \<or> n = 170 \<or> n = 178 \<or> n = 179 \<or> n = 181 \<or> n = 185 \<or> n = 186
     \<or> n = 188 \<or> n = 189 \<or> n = 190
     \<or> (192 \<le> n \<and> n \<le> 214) \<or> (216 \<le> n \<and> n \<le> 246) \<or> (248 \<le> n \<and> n \<le> 255))"

text \<open>\<open>str.lower()\<close> on one code point.\<close>

definition lower_char :: "char \<Rightarrow> char" where
  "lower_char c = (let n = code c in
     if (65 \<le> n \<and> n \<le> 90) \<or> (192 \<le> n \<and> n \<le> 214) \<or> (216 \<le> n \<and> n \<le> 222)
     then char_of (n + 32) else c)"

definition lower :: "string \<Rightarrow> string" where
  "lower s = map lower_char s"

text \<open>\<open>str.strip()\<close> with no argument.\<close>

definition strip :: "string \<Rightarrow> string" where
  "strip s = rev (dropWhile is_space (rev (dropWhile is_space s)))"

text \<open>\<open>str.split()\<close> with no argument: the maximal runs of non-space characters.\<close>

function split :: "string \<Rightarrow> string list" where
  "split s = (case dropWhile is_space s of
     [] \<Rightarrow> []
   | c # cs \<Rightarrow> (c # takeWhile (\<lambda>x. \<not> is_space x) cs) # split (dropWhile (\<lambda>x. \<not> is_space x) cs))"
  by pat_completeness auto
termination
proof (relation "measure length")
  show "wf (measure length)" by simp
next
  fix s :: string and c cs
  assume a: "dropWhile is_space s = c # cs"
  have "length (dropWhile (\<lambda>x. \<not> is_space x) cs) \<le> length cs"
    by (rule length_dropWhile_le)
  moreover have "length (c # cs) \<le> length s"
    using length_dropWhile_le [of is_space s] a by simp
  ultimately show "(dropWhile (\<lambda>x. \<not> is_space x) cs, s) \<in> measure length"
    by simp
qed

declare split.simps [simp del]

text \<open>\<open>sep.join(xs)\<close>.\<close>

fun join :: "string \<Rightarrow> string list \<Rightarrow> string" where
  "join sep [] = []"
| "join sep [x] = x"
| "join sep (x # y # ys) = x @ sep @ join sep (y # ys)"

text \<open>
  \<open>s.replace(old, new)\<close>: every non-overlapping occurrence of \<open>old\<close>, from the left.
  With an empty \<open>old\<close> Python puts \<open>new\<close> before every character and at the end.
\<close>

fun replace_from :: "string \<Rightarrow> string \<Rightarrow> string \<Rightarrow> string" where
  "replace_from old new [] = []"
| "replace_from old new (c # cs) =
     (if take (length old) (c # cs) = old
      then new @ replace_from old new (drop (length old - 1) cs)
      else c # replace_from old new cs)"

definition replace :: "string \<Rightarrow> string \<Rightarrow> string \<Rightarrow> string" where
  "replace s old new =
     (if old = [] then new @ concat (map (\<lambda>c. c # new) s) else replace_from old new s)"

text \<open>\<open>sub in s\<close> on strings.\<close>

fun contains :: "string \<Rightarrow> string \<Rightarrow> bool" where
  "contains sub [] = (sub = [])"
| "contains sub (c # cs) = (take (length sub) (c # cs) = sub \<or> contains sub cs)"

section \<open>Regular expressions\<close>

text \<open>
  The patterns of the source use literals, the classes \<open>\d\<close>, \<open>\s\<close> and \<open>[ \t]\<close>, the
  word boundary \<open>\b\<close>, concatenation, alternation, the greedy repetitions \<open>*\<close>, \<open>+\<close>,
  \<open>?\<close>, \<open>{m,n}\<close> and capturing groups. \<open>Rep r lo hi\<close> is \<open>r{lo,hi}\<close>, with no upper
  bound when \<open>hi\<close> is \<open>None\<close>.
\<close>

datatype cls = Digit | Space | Blank

datatype re =
    Lit string
  | Cls cls
  | WordB
  | Seq re re
  | Alt re re
  | Rep re nat "nat option"
  | Grp nat re

abbreviation Star :: "re \<Rightarrow> re" where "Star r \<equiv> Rep r 0 None"
abbreviation Plus :: "re \<Rightarrow> re" where "Plus r \<equiv> Rep r 1 None"
abbreviation Opt :: "re \<Rightarrow> re" where "Opt r \<equiv> Rep r 0 (Some 1)"

fun in_cls :: "cls \<Rightarrow> char \<Rightarrow> bool" where
  "in_cls Digit c = is_digit c"
| "in_cls Space c = is_space c"
| "in_cls Blank c = is_blank c"

text \<open>
  The state of the backtracking matcher: the character before the current position
  (for \<open>\b\<close>), the input still to read, and the groups captured so far.
\<close>

record mstate =
  prev :: "char option"
  rest :: string
  grps :: "(nat \<times> string) list"

definition word_opt :: "char option \<Rightarrow> bool" where
  "word_opt x = (case x of None \<Rightarrow> False | Some c \<Rightarrow> is_word c)"

definition next_char :: "string \<Rightarrow> char option" where
  "next_char s = (case s of [] \<Rightarrow> None | c # _ \<Rightarrow> Some c)"

fun re_size :: "re \<Rightarrow> nat" where
  "re_size (Lit w) = 1"
| "re_size (Cls c) = 1"
| "re_size WordB = 1"
| "re_size (Seq a b) = Suc (re_size a + re_size b)"
| "re_size (Alt a b) = Suc (re_size a + re_size b)"
| "re_size (Rep r lo hi) = Suc (re_size r)"
| "re_size (Grp n r) = Suc (re_size r)"

text \<open>
  \<open>ms r st\<close> lists every state in which a match of \<open>r\<close> from \<open>st\<close> can end, in the order
  in which a backtracking matcher tries them: the left alternative before the right
  one, one more iteration of a greedy repetition before stopping. The head of the list
  is the match that \<open>re\<close> reports. An iteration of a repetition has to consume input;
  no repeated pattern of the source can match the empty string.
\<close>

function ms :: "re \<Rightarrow> mstate \<Rightarrow> mstate list" where
  "ms (Lit w) st =
     (if take (length w) (rest st) = w
      then [st\<lparr>prev := (if w = [] then prev st else Some (last w)),
                rest := drop (length w) (rest st)\<rparr>]
      else [])"
| "ms (Cls k) st =
     (case rest st of
        [] \<Rightarrow> []
      | c # cs \<Rightarrow> if in_cls k c then [st\<lparr>prev := Some c, rest := cs\<rparr>] else [])"
| "ms WordB st =
     (if word_opt (prev st) \<noteq> word_opt (next_char (rest st)) then [st] else [])"
| "ms (Seq a b) st = concat (map (\<lambda>st'. ms b st') (ms a st))"
| "ms (Alt a b) st = ms a st @ ms b st"
| "ms (Rep r lo hi) st =
     (if hi = Some 0 then []
      else concat (map (\<lambda>st'. ms (Rep r (lo - 1) (map_option (\<lambda>h. h - 1) hi)) st')
             (filter (\<lambda>st'. length (rest st') < length (rest st)) (ms r st))))
     @ (if lo = 0 then [st] else [])"
| "ms (Grp n r) st =
     map (\<lambda>st'. st'\<lparr>grps := (n, take (length (rest st) - length (rest st')) (rest st))
                              # grps st'\<rparr>) (ms r st)"
  by pat_completeness auto
termination
  by (relation "measures [\<lambda>(r, st). re_size r, \<lambda>(r, st). length (rest st)]") auto

section \<open>Matches, \<open>finditer\<close>, \<open>search\<close> and \<open>sub\<close>\<close>

text \<open>A match object: its span, the text of group 0 and the numbered groups.\<close>

record rmatch =
  m_start :: nat
  m_end :: nat
  m_text :: string
  m_groups :: "(nat \<times> string) list"

text \<open>\<open>m.group(k)\<close>; \<open>None\<close> is Python's \<open>None\<close> for a group that took no part.\<close>

definition group :: "rmatch \<Rightarrow> nat \<Rightarrow> string option" where
  "group m k = (if k = 0 then Some (m_text m) else map_of (m_groups m) k)"

text \<open>The match of \<open>r\<close> that starts exactly at the current position, if there is one.\<close>

definition match_at :: "re \<Rightarrow> char option \<Rightarrow> nat \<Rightarrow> string \<Rightarrow> rmatch option" where
  "match_at r p off s =
     (case ms r \<lparr>prev = p, rest = s, grps = []\<rparr> of
        [] \<Rightarrow> None
      | st # _ \<Rightarrow>
          Some \<lparr>m_start = off, m_end = off + (length s - length (rest st)),
                m_text = take (length s - length (rest st)) s, m_groups = grps st\<rparr>)"

text \<open>
  The scan of \<open>finditer\<close>: the leftmost match, then the leftmost match after its end,
  and so on. After an empty match the scan moves on by one character; no pattern of
  the source matches the empty string.
\<close>

function scan :: "re \<Rightarrow> char option \<Rightarrow> nat \<Rightarrow> string \<Rightarrow> rmatch list" where
  "scan r p off [] = (case match_at r p off [] of None \<Rightarrow> [] | Some m \<Rightarrow> [m])"
| "scan r p off (c # cs) =
     (case match_at r p off (c # cs) of
        None \<Rightarrow> scan r (Some c) (Suc off) cs
      | Some m \<Rightarrow>
          m # scan r (Some ((c # cs) ! (max 1 (length (m_text m)) - 1)))
                (off + max 1 (length (m_text m)))
                (drop (max 1 (length (m_text m)) - 1) cs))"
  by pat_completeness auto
termination
  by (relation "measure (\<lambda>(r, p, off, s). length s)") auto

definition finditer :: "re \<Rightarrow> string \<Rightarrow> rmatch list" where
  "finditer r s = scan r None 0 s"

definition search_re :: "re \<Rightarrow> string \<Rightarrow> rmatch option" where
  "search_re r s = (case finditer r s of [] \<Rightarrow> None | m # _ \<Rightarrow> Some m)"

text \<open>\<open>re.sub(r, repl, s)\<close>: the text between the matches, with \<open>repl\<close> for each match.\<close>

fun splice :: "string \<Rightarrow> nat \<Rightarrow> string \<Rightarrow> rmatch list \<Rightarrow> string" where
  "splice repl pos s [] = drop pos s"
| "splice repl pos s (m # mts) =
     take (m_start m - pos) (drop pos s) @ repl @ splice repl (m_end m) s mts"

definition sub_re :: "re \<Rightarrow> string \<Rightarrow> string \<Rightarrow> string" where
  "sub_re r repl s = splice repl 0 s (finditer r s)"

section \<open>The price patterns\<close>

text \<open>\<open>_NUM = (?:\d{1,3}(?:,\d{3})*|\d+)(?:\.\d+)?\<close>\<close>

definition NUM :: re where
  "NUM = Seq (Alt (Seq (Rep (Cls Digit) 1 (Some 3))
                       (Star (Seq (Lit '','') (Rep (Cls Digit) 3 (Some 3)))))
                  (Plus (Cls Digit)))
             (Opt (Seq (Lit ''.'') (Plus (Cls Digit))))"

text \<open>\<open>_CURRENCY = (?:\$|usd|dollars?)\<close>\<close>

definition CURRENCY :: re where
  "CURRENCY = Alt (Lit ''$'') (Alt (Lit ''usd'') (Seq (Lit ''dollar'') (Opt (Lit ''s''))))"

text \<open>\<open>_WS = [ \t]*\<close>\<close>

definition WS :: re where
  "WS = Star (Cls Blank)"

text \<open>The tail \<open>(?:{_WS}{_CURRENCY})?\<close> that every numeric pattern ends with.\<close>

definition cur_tail :: re where
  "cur_tail = Opt (Seq WS CURRENCY)"

text \<open>A keyword pattern \<open>kw{_WS}({_NUM})(?:{_WS}{_CURRENCY})?\<close>.\<close>

definition kw_num :: "re \<Rightarrow> re" where
  "kw_num kw = Seq kw (Seq WS (Seq (Grp 1 NUM) cur_tail))"

definition interval_patterns :: "re list" where
  "interval_patterns =
     [Seq (Alt (Lit ''between'') (Lit ''from''))
        (Seq WS (Seq (Grp 1 NUM) (Seq WS (Seq (Alt (Lit ''and'') (Alt (Lit ''to'') (Lit ''-'')))
          (Seq WS (Seq (Grp 2 NUM) cur_tail)))))),
      Seq (Grp 1 NUM) (Seq WS (Seq (Lit ''-'') (Seq WS (Seq (Grp 2 NUM) cur_tail))))]"

definition upper_patterns :: "re list" where
  "upper_patterns =
     [kw_num (Alt (Lit ''under'') (Alt (Lit ''below'')
                (Seq (Lit ''at'') (Seq (Star (Cls Space)) (Lit ''most''))))),
      kw_num (Alt (Lit ''<='') (Lit ''<'')),
      kw_num (Seq (Lit ''up'') (Seq (Star (Cls Space)) (Lit ''to'')))]"

definition lower_patterns :: "re list" where
  "lower_patterns =
     [kw_num (Alt (Lit ''over'') (Alt (Lit ''above'')
                (Seq (Lit ''at'') (Seq (Star (Cls Space)) (Lit ''least''))))),
      kw_num (Alt (Lit ''>='') (Lit ''>''))]"

definition approx_patterns :: "re list" where
  "approx_patterns =
     [kw_num (Alt (Lit ''around'') (Alt (Lit ''about'')
                (Seq (Lit ''approx'') (Opt (Alt (Lit ''.'') (Lit ''imately'')))))),
      kw_num (Lit ''exactly'')]"

text \<open>\<open>\b(cheap|inexpensive|budget)\b\<close> and \<open>\b(expensive|premium|high-end)\b\<close>\<close>

definition cheap_pattern :: re where
  "cheap_pattern =
     Seq WordB (Seq (Grp 1 (Alt (Lit ''cheap'') (Alt (Lit ''inexpensive'') (Lit ''budget''))))
                    WordB)"

definition expensive_pattern :: re where
  "expensive_pattern =
     Seq WordB (Seq (Grp 1 (Alt (Lit ''expensive'') (Alt (Lit ''premium'') (Lit ''high-end''))))
                    WordB)"

section \<open>The price extractor\<close>

datatype error = ValueError | AttributeError

text \<open>
  A Python float is modelled by the rational number it stands for: a literal by its
  decimal value, the products of the approximation pass exactly. Rounding to a double
  is left out; \<open>min\<close>, \<open>max\<close> and \<open>sorted\<close> commute with it, and the numbers of the
  examples below are integers that a double holds exactly. \<open>float(t)\<close> is modelled on
  the literals that consist of digits with an optional fraction part; every other
  string is a \<open>ValueError\<close> in the model (Python accepts some of them, such as signs
  and exponents), so the model raises wherever Python does.
\<close>

definition digit_val :: "char \<Rightarrow> int" where
  "digit_val c = int (code c - 48)"

definition digits_val :: "string \<Rightarrow> int" where
  "digits_val ds = foldl (\<lambda>n c. 10 * n + digit_val c) 0 ds"

definition py_float :: "string \<Rightarrow> error + rat" where
  "py_float t =
     (let ip = takeWhile is_digit t; r = dropWhile is_digit t in
      if ip = [] then Inl ValueError
      else case r of
        [] \<Rightarrow> Inr (of_int (digits_val ip))
      | c # fr \<Rightarrow>
          if c = CHR ''.'' \<and> fr \<noteq> [] \<and> filter (\<lambda>x. \<not> is_digit x) fr = []
          then Inr (of_int (digits_val ip) + of_int (digits_val fr) / 10 ^ length fr)
          else Inl ValueError)"

text \<open>\<open>_to_float(s)\<close>; the argument is \<open>None\<close> when a group took no part in the match.\<close>

definition to_float :: "string option \<Rightarrow> error + rat" where
  "to_float g = (case g of None \<Rightarrow> Inl AttributeError | Some s \<Rightarrow> py_float (replace s '','' []))"

text \<open>The local variables of \<open>_extract_price_filters\<close> that the passes update.\<close>

record pstate =
  s_text :: string
  min_price :: "rat option"
  max_price :: "rat option"

text \<open>\<open>lo if min_price is None else max(min_price, lo)\<close> and its mirror image.\<close>

definition tighten_min :: "rat option \<Rightarrow> rat \<Rightarrow> rat option" where
  "tighten_min cur lo = (case cur of None \<Rightarrow> Some lo | Some v \<Rightarrow> Some (max v lo))"

definition tighten_max :: "rat option \<Rightarrow> rat \<Rightarrow> rat option" where
  "tighten_max cur hi = (case cur of None \<Rightarrow> Some hi | Some v \<Rightarrow> Some (min v hi))"

text \<open>The bodies of the four \<open>for m in re.finditer(pat, s)\<close> loops.\<close>

definition interval_step :: "pstate \<Rightarrow> rmatch \<Rightarrow> error + pstate" where
  "interval_step st m =
     (case to_float (group m 1) of Inl e \<Rightarrow> Inl e | Inr a \<Rightarrow>
      case to_float (group m 2) of Inl e \<Rightarrow> Inl e | Inr b \<Rightarrow>
        Inr \<lparr>s_text = replace (s_text st) (m_text m) '' '',
             min_price = tighten_min (min_price st) (min a b),
             max_price = tighten_max (max_price st) (max a b)\<rparr>)"

definition upper_step :: "pstate \<Rightarrow> rmatch \<Rightarrow> error + pstate" where
  "upper_step st m =
     (case to_float (group m 1) of Inl e \<Rightarrow> Inl e | Inr val \<Rightarrow>
        Inr (st\<lparr>s_text := replace (s_text st) (m_text m) '' '',
                max_price := tighten_max (max_price st) val\<rparr>))"

definition lower_step :: "pstate \<Rightarrow> rmatch \<Rightarrow> error + pstate" where
  "lower_step st m =
     (case to_float (group m 1) of Inl e \<Rightarrow> Inl e | Inr val \<Rightarrow>
        Inr (st\<lparr>s_text := replace (s_text st) (m_text m) '' '',
                min_price := tighten_min (min_price st) val\<rparr>))"

definition approx_step :: "pstate \<Rightarrow> rmatch \<Rightarrow> error + pstate" where
  "approx_step st m =
     (case to_float (group m 1) of Inl e \<Rightarrow> Inl e | Inr val \<Rightarrow>
        let band = (if contains ''around'' (m_text m) \<or> contains ''about'' (m_text m)
                       \<or> contains ''approx'' (m_text m)
                    then (9 / 10 * val, 11 / 10 * val) else (val, val))
        in Inr \<lparr>s_text = replace (s_text st) (m_text m) '' '',
                min_price = tighten_min (min_price st) (fst band),
                max_price = tighten_max (max_price st) (snd band)\<rparr>)"

text \<open>
  The inner loop over the matches, stopping at the first exception. The iterator was
  made from the text as it was when the loop began.
\<close>

fun run_matches :: "(pstate \<Rightarrow> rmatch \<Rightarrow> error + pstate) \<Rightarrow> rmatch list \<Rightarrow> pstate \<Rightarrow> error + pstate" where
  "run_matches step [] st = Inr st"
| "run_matches step (m # mts) st =
     (case step st m of Inl e \<Rightarrow> Inl e | Inr st' \<Rightarrow> run_matches step mts st')"

text \<open>The outer loop \<open>for pat in patterns\<close>.\<close>

fun run_patterns :: "(pstate \<Rightarrow> rmatch \<Rightarrow> error + pstate) \<Rightarrow> re list \<Rightarrow> pstate \<Rightarrow> error + pstate" where
  "run_patterns step [] st = Inr st"
| "run_patterns step (pat # pats) st =
     (case run_matches step (finditer pat (s_text st)) st of
        Inl e \<Rightarrow> Inl e
      | Inr st' \<Rightarrow> run_patterns step pats st')"

text \<open>The two soft heuristics.\<close>

definition cheap_step :: "pstate \<Rightarrow> pstate" where
  "cheap_step st =
     (case search_re cheap_pattern (s_text st) of
        None \<Rightarrow> st
      | Some _ \<Rightarrow>
          st\<lparr>max_price := (case max_price st of None \<Rightarrow> Some 15 | Some v \<Rightarrow> Some v),
              s_text := sub_re cheap_pattern '' '' (s_text st)\<rparr>)"

definition expensive_step :: "pstate \<Rightarrow> pstate" where
  "expensive_step st =
     (case search_re expensive_pattern (s_text st) of
        None \<Rightarrow> st
      | Some _ \<Rightarrow>
          st\<lparr>min_price := (case min_price st of None \<Rightarrow> Some 100 | Some v \<Rightarrow> Some v),
              s_text := sub_re expensive_pattern '' '' (s_text st)\<rparr>)"

text \<open>The squish and the fallback at the end.\<close>

definition finish :: "string \<Rightarrow> pstate \<Rightarrow> string \<times> rat option \<times> rat option" where
  "finish original st =
     (let cleaned = join '' '' (split (s_text st))
      in (if cleaned = [] then original else cleaned, min_price st, max_price st))"

definition initial :: "string \<Rightarrow> pstate" where
  "initial q = \<lparr>s_text = '' '' @ strip (lower q) @ '' '', min_price = None, max_price = None\<rparr>"

text \<open>The four numeric passes, in the order of the source.\<close>

definition numeric_passes :: "pstate \<Rightarrow> error + pstate" where
  "numeric_passes st0 =
     (case run_patterns interval_step interval_patterns st0 of Inl e \<Rightarrow> Inl e | Inr st1 \<Rightarrow>
      case run_patterns upper_step upper_patterns st1 of Inl e \<Rightarrow> Inl e | Inr st2 \<Rightarrow>
      case run_patterns lower_step lower_patterns st2 of Inl e \<Rightarrow> Inl e | Inr st3 \<Rightarrow>
      run_patterns approx_step approx_patterns st3)"

definition extract_price_filters :: "string \<Rightarrow> error + string \<times> rat option \<times> rat option" where
  "extract_price_filters q =
     (case numeric_passes (initial q) of
        Inl e \<Rightarrow> Inl e
      | Inr st \<Rightarrow> Inr (finish q (expensive_step (cheap_step st))))"

section \<open>The search route\<close>

text \<open>
  The conditions of the Qdrant filter: a \<open>Range\<close> on the field \<open>price\<close> with its
  \<open>gte\<close> and \<open>lte\<close> bounds, and a \<open>MatchValue\<close> on the field \<open>category\<close>.
\<close>

datatype condition = PriceRange "rat option" "rat option" | CategoryMatch string

text \<open>The keyword arguments of \<open>client.search\<close> (the collection is a constant).\<close>

record 'v search_call =
  query_vector :: 'v
  limit :: int
  score_threshold :: rat
  query_filter :: "condition list option"

definition must_conditions :: "rat option \<Rightarrow> rat option \<Rightarrow> string option \<Rightarrow> condition list" where
  "must_conditions mn mx category =
     (if mn \<noteq> None \<or> mx \<noteq> None then [PriceRange mn mx] else [])
     @ (case category of None \<Rightarrow> [] | Some c \<Rightarrow> if c = [] then [] else [CategoryMatch c])"

text \<open>
  The call that \<open>search\<close> makes. The embedder is a collaborator: \<open>embedder t\<close> stands for
  \<open>embed_texts([t])[0]\<close>.
\<close>

definition search_request ::
  "(string \<Rightarrow> 'v) \<Rightarrow> string \<Rightarrow> int \<Rightarrow> rat \<Rightarrow> string option \<Rightarrow> error + 'v search_call" where
  "search_request embedder q top_k thr category =
     (case extract_price_filters q of
        Inl e \<Rightarrow> Inl e
      | Inr (cleaned_q, mn, mx) \<Rightarrow>
          Inr \<lparr>query_vector = embedder cleaned_q,
               limit = max top_k 12,
               score_threshold = thr,
               query_filter = (case must_conditions mn mx category of
                                 [] \<Rightarrow> None | c # cs \<Rightarrow> Some (c # cs))\<rparr>)"

text \<open>The slice \<open>res[:k]\<close>; a negative \<open>k\<close> counts from the end.\<close>

definition slice_to :: "'a list \<Rightarrow> int \<Rightarrow> 'a list" where
  "slice_to xs k = (if 0 \<le> k then take (nat k) xs else take (length xs - nat (- k)) xs)"

text \<open>
  \<open>search\<close>, with the vector store as a second collaborator: \<open>store call\<close> is the list of
  scored points that \<open>client.search\<close> returns, of which the payloads are kept.
\<close>

definition search ::
  "(string \<Rightarrow> 'v) \<Rightarrow> ('v search_call \<Rightarrow> ('p \<times> rat) list) \<Rightarrow>
   string \<Rightarrow> int \<Rightarrow> rat \<Rightarrow> string option \<Rightarrow> error + 'p list" where
  "search embedder store q top_k thr category =
     (case search_request embedder q top_k thr category of
        Inl e \<Rightarrow> Inl e
      | Inr call \<Rightarrow> Inr (map fst (slice_to (store call) top_k)))"

section \<open>The language of a pattern\<close>

text \<open>
  The strings a pattern can match, the groups it contains, and the groups that every
  match of it sets. These are used to show that the numbers the patterns capture are
  always accepted by \<open>float\<close>.
\<close>

fun lang :: "re \<Rightarrow> string set" where
  "lang (Lit w) = {w}"
| "lang (Cls k) = {[c] | c. in_cls k c}"
| "lang WordB = {[]}"
| "lang (Seq a b) = {u @ v | u v. u \<in> lang a \<and> v \<in> lang b}"
| "lang (Alt a b) = lang a \<union> lang b"
| "lang (Rep r lo hi) =
     {concat ws | ws. set ws \<subseteq> lang r \<and> lo \<le> length ws
        \<and> (case hi of None \<Rightarrow> True | Some h \<Rightarrow> length ws \<le> h)}"
| "lang (Grp n r) = lang r"

fun grp_of :: "re \<Rightarrow> (nat \<times> re) set" where
  "grp_of (Grp n r) = insert (n, r) (grp_of r)"
| "grp_of (Seq a b) = grp_of a \<union> grp_of b"
| "grp_of (Alt a b) = grp_of a \<union> grp_of b"
| "grp_of (Rep r lo hi) = grp_of r"
| "grp_of r = {}"

fun defd :: "re \<Rightarrow> nat set" where
  "defd (Grp n r) = insert n (defd r)"
| "defd (Seq a b) = defd a \<union> defd b"
| "defd (Alt a b) = defd a \<inter> defd b"
| "defd r = {}"

section \<open>Tightening\<close>

text \<open>
  \<open>tighter st st'\<close>: every bound of \<open>st\<close> is still present in \<open>st'\<close> and is at least as
  strict there (a lower bound has not decreased, an upper bound has not increased).
\<close>

definition tighter :: "pstate \<Rightarrow> pstate \<Rightarrow> bool" where
  "tighter st st' =
     ((case min_price st of None \<Rightarrow> True
       | Some v \<Rightarrow> (case min_price st' of None \<Rightarrow> False | Some v' \<Rightarrow> v \<le> v'))
      \<and> (case max_price st of None \<Rightarrow> True
          | Some v \<Rightarrow> (case max_price st' of None \<Rightarrow> False | Some v' \<Rightarrow> v' \<le> v)))"

section \<open>Queries without a price phrase\<close>

text \<open>
  A query has no price phrase when none of the numeric patterns and neither of the two
  word patterns matches in its lower-cased, padded text.
\<close>

definition numeric_patterns :: "re list" where
  "numeric_patterns = interval_patterns @ upper_patterns @ lower_patterns @ approx_patterns"

definition no_price_phrase :: "string \<Rightarrow> bool" where
  "no_price_phrase q =
     (let s = s_text (initial q)
      in list_all (\<lambda>pat. finditer pat s = []) numeric_patterns
         \<and> search_re cheap_pattern s = None \<and> search_re expensive_pattern s = None)"

text \<open>A state in which neither bound is set.\<close>

definition unbounded :: "pstate \<Rightarrow> bool" where
  "unbounded st = (min_price st = None \<and> max_price st = None)"

text \<open>The result for a query in which nothing is found.\<close>

definition plain_result :: "string \<Rightarrow> string \<times> rat option \<times> rat option" where
  "plain_result q =
     (let cleaned = join '' '' (split (lower q))
      in (if cleaned = [] then q else cleaned, None, None))"

text \<open>A text that \<open>lower()\<close> leaves as it is.\<close>

definition lowered :: "string \<Rightarrow> bool" where
  "lowered s = (\<forall>c\<in>set s. lower_char c = c)"

abbreviation nsp :: "char \<Rightarrow> bool" where "nsp \<equiv> (\<lambda>x. \<not> is_space x)"

section \<open>Standalone words\<close>

text \<open>
  The words of the two soft patterns, \<open>\b(cheap|inexpensive|budget)\b\<close> and
  \<open>\b(expensive|premium|high-end)\b\<close>.
\<close>

definition cheap_words :: "string list" where
  "cheap_words = [''cheap'', ''inexpensive'', ''budget'']"

definition expensive_words :: "string list" where
  "expensive_words = [''expensive'', ''premium'', ''high-end'']"

text \<open>
  A word of the list \<open>W\<close> stands at the head of \<open>s\<close>: the character before (\<open>p\<close>) is not
  a word character, \<open>s\<close> begins with the word, and the character after it is not a word
  character. \<open>has_word\<close> looks for such a place anywhere in \<open>s\<close>.
\<close>

definition word_at :: "string list \<Rightarrow> char option \<Rightarrow> string \<Rightarrow> bool" where
  "word_at W p s =
     (\<not> word_opt p
      \<and> (\<exists>w\<in>set W. take (length w) s = w \<and> \<not> word_opt (next_char (drop (length w) s))))"

fun has_word :: "string list \<Rightarrow> char option \<Rightarrow> string \<Rightarrow> bool" where
  "has_word W p [] = False"
| "has_word W p (c # cs) = (word_at W p (c # cs) \<or> has_word W (Some c) cs)"

text \<open>
  Words that begin and end with a word character and hold no whitespace, so that a
  word boundary lies at both ends of each.
\<close>

definition good_words :: "string list \<Rightarrow> bool" where
  "good_words W = (\<forall>w\<in>set W. w \<noteq> [] \<and> is_word (hd w) \<and> is_word (last w)
                      \<and> (\<forall>c\<in>set w. \<not> is_space c))"

text \<open>
  A property of a pattern, used in the proofs only: \<open>P\<close> matches at a position exactly
  when a word of \<open>W\<close> stands there, and the text it matches is such a word.
\<close>

definition soft_pattern :: "re \<Rightarrow> string list \<Rightarrow> bool" where
  "soft_pattern P W =
     (good_words W
      \<and> (\<forall>p off s. (match_at P p off s = None) = (\<not> word_at W p s))
      \<and> (\<forall>p off s m. match_at P p off s = Some m \<longrightarrow>
            m_text m \<in> set W \<and> take (length (m_text m)) s = m_text m
            \<and> \<not> word_opt (next_char (drop (length (m_text m)) s))))"

text \<open>
  \<open>re.sub\<close> as a single pass over the text, following the scan of \<open>finditer\<close>: a
  character where nothing matches is copied, a match is replaced by \<open>repl\<close>. It is
  shown equal to \<open>sub_re\<close> below.
\<close>

function erase :: "re \<Rightarrow> string \<Rightarrow> char option \<Rightarrow> string \<Rightarrow> string" where
  "erase r repl p [] = []"
| "erase r repl p (c # cs) =
     (case match_at r p 0 (c # cs) of
        None \<Rightarrow> c # erase r repl (Some c) cs
      | Some m \<Rightarrow>
          repl @ erase r repl (Some ((c # cs) ! (max 1 (length (m_text m)) - 1)))
                   (drop (max 1 (length (m_text m)) - 1) cs))"
  by pat_completeness auto
termination
  by (relation "measure (\<lambda>(r, repl, p, s). length s)") auto

text \<open>A text that is empty or begins with whitespace.\<close>

definition brk :: "string \<Rightarrow> bool" where
  "brk y = (y = [] \<or> is_space (hd y))"

section \<open>The matcher only returns strings of the language\<close>

declare ms.simps [simp del]
lemmas ms_simps = ms.simps(1-5) ms.simps(7)

lemma take_length_eq_append: "take (length w) s = w \<Longrightarrow> s = w @ drop (length w) s"
  by (metis append_take_drop_id)

lemma ms_sound:
  "st' \<in> set (ms r st) \<Longrightarrow> \<exists>t. rest st = t @ rest st' \<and> t \<in> lang r"
proof (induction r st arbitrary: st' rule: ms.induct)
  case (1 w st)
  then show ?case by (auto simp: ms_simps split: if_splits dest: take_length_eq_append)
next
  case (2 k st)
  show ?case
  proof (cases "rest st")
    case Nil
    with "2.prems" show ?thesis by (simp add: ms_simps)
  next
    case (Cons c cs)
    with "2.prems" have c: "in_cls k c" "rest st' = cs" by (auto simp: ms_simps split: if_splits)
    have "rest st = [c] @ rest st'" using c Cons by simp
    moreover have "[c] \<in> lang (Cls k)" using c by simp
    ultimately show ?thesis by blast
  qed
next
  case (3 st)
  then show ?case by (auto simp: ms_simps split: if_splits)
next
  case (4 a b st)
  from "4.prems" obtain st1 where s1: "st1 \<in> set (ms a st)" and s2: "st' \<in> set (ms b st1)"
    by (auto simp: ms_simps)
  from "4.IH"(1) [OF s1] obtain t1 where t1: "rest st = t1 @ rest st1" "t1 \<in> lang a" by blast
  from "4.IH"(2) [OF s1 s2] obtain t2 where t2: "rest st1 = t2 @ rest st'" "t2 \<in> lang b" by blast
  have "rest st = (t1 @ t2) @ rest st'" using t1 t2 by simp
  moreover have "t1 @ t2 \<in> lang (Seq a b)" using t1 t2 by auto
  ultimately show ?case by blast
next
  case (5 a b st)
  then show ?case by (fastforce simp: ms_simps)
next
  case (6 r lo hi st)
  have un: "ms (Rep r lo hi) st =
     (if hi = Some 0 then []
      else concat (map (\<lambda>st'. ms (Rep r (lo - 1) (map_option (\<lambda>h. h - 1) hi)) st')
             (filter (\<lambda>st'. length (rest st') < length (rest st)) (ms r st))))
     @ (if lo = 0 then [st] else [])"
    by (rule ms.simps(6))
  show ?case
  proof (cases "st' = st \<and> lo = 0")
    case True
    have "[] \<in> lang (Rep r lo hi)"
      using True by (auto intro!: exI [of _ "[]"] split: option.splits)
    then show ?thesis using True by auto
  next
    case False
    with "6.prems" un have nz: "hi \<noteq> Some 0"
      and ex: "\<exists>st1 \<in> set (filter (\<lambda>x. length (rest x) < length (rest st)) (ms r st)).
                  st' \<in> set (ms (Rep r (lo - 1) (map_option (\<lambda>h. h - 1) hi)) st1)"
      by (auto split: if_splits)
    from ex obtain st1 where
      f1: "st1 \<in> set (filter (\<lambda>x. length (rest x) < length (rest st)) (ms r st))"
      and s2: "st' \<in> set (ms (Rep r (lo - 1) (map_option (\<lambda>h. h - 1) hi)) st1)" by blast
    from f1 have s1: "st1 \<in> set (ms r st)" by simp
    from "6.IH"(1) [OF nz s1] obtain t1 where t1: "rest st = t1 @ rest st1" "t1 \<in> lang r" by blast
    from "6.IH"(2) [OF nz f1 s2] obtain t2 where
      t2: "rest st1 = t2 @ rest st'" "t2 \<in> lang (Rep r (lo - 1) (map_option (\<lambda>h. h - 1) hi))"
      by blast
    from t2(2) obtain ws where ws: "t2 = concat ws" "set ws \<subseteq> lang r" "lo - 1 \<le> length ws"
      "(case map_option (\<lambda>h. h - 1) hi of None \<Rightarrow> True | Some h \<Rightarrow> length ws \<le> h)"
      by auto
    have "t1 @ t2 = concat (t1 # ws)" using ws by simp
    moreover have "set (t1 # ws) \<subseteq> lang r" using ws t1 by simp
    moreover have "lo \<le> length (t1 # ws)" using ws by simp
    moreover have "(case hi of None \<Rightarrow> True | Some h \<Rightarrow> length (t1 # ws) \<le> h)"
      using ws(4) nz by (cases hi) auto
    ultimately have "t1 @ t2 \<in> lang (Rep r lo hi)"
      unfolding lang.simps by blast
    moreover have "rest st = (t1 @ t2) @ rest st'" using t1 t2 by simp
    ultimately show ?thesis by blast
  qed
next
  case (7 n r st)
  then show ?case by (auto simp: ms_simps)
qed


lemma ms_groups_mono:
  "st' \<in> set (ms r st) \<Longrightarrow> map_of (grps st) n \<noteq> None \<Longrightarrow> map_of (grps st') n \<noteq> None"
proof (induction r st arbitrary: st' rule: ms.induct)
  case (6 r lo hi st)
  have un: "ms (Rep r lo hi) st =
     (if hi = Some 0 then []
      else concat (map (\<lambda>st'. ms (Rep r (lo - 1) (map_option (\<lambda>h. h - 1) hi)) st')
             (filter (\<lambda>st'. length (rest st') < length (rest st)) (ms r st))))
     @ (if lo = 0 then [st] else [])"
    by (rule ms.simps(6))
  show ?case
  proof (cases "st' = st")
    case True
    then show ?thesis using "6.prems" by simp
  next
    case False
    with "6.prems" un have nz: "hi \<noteq> Some 0"
      and ex: "\<exists>st1 \<in> set (filter (\<lambda>x. length (rest x) < length (rest st)) (ms r st)).
                  st' \<in> set (ms (Rep r (lo - 1) (map_option (\<lambda>h. h - 1) hi)) st1)"
      by (auto split: if_splits)
    from ex obtain st1 where
      f1: "st1 \<in> set (filter (\<lambda>x. length (rest x) < length (rest st)) (ms r st))"
      and s2: "st' \<in> set (ms (Rep r (lo - 1) (map_option (\<lambda>h. h - 1) hi)) st1)" by blast
    from f1 have s1: "st1 \<in> set (ms r st)" by simp
    from "6.IH"(1) [OF nz s1 "6.prems"(2)] have "map_of (grps st1) n \<noteq> None" .
    from "6.IH"(2) [OF nz f1 s2 this] show ?thesis .
  qed
qed (auto simp: ms_simps split: if_splits list.splits)

lemma ms_groups_defd:
  "st' \<in> set (ms r st) \<Longrightarrow> n \<in> defd r \<Longrightarrow> map_of (grps st') n \<noteq> None"
proof (induction r st arbitrary: st' rule: ms.induct)
  case (4 a b st)
  from "4.prems" obtain st1 where s1: "st1 \<in> set (ms a st)" and s2: "st' \<in> set (ms b st1)"
    by (auto simp: ms_simps)
  show ?case
  proof (cases "n \<in> defd a")
    case True
    from "4.IH"(1) [OF s1 True] have "map_of (grps st1) n \<noteq> None" .
    from ms_groups_mono [OF s2 this] show ?thesis .
  next
    case False
    with "4.prems" have "n \<in> defd b" by simp
    from "4.IH"(2) [OF s1 s2 this] show ?thesis .
  qed
qed (auto simp: ms_simps split: if_splits list.splits)

lemma ms_groups_lang:
  "st' \<in> set (ms r st) \<Longrightarrow> map_of (grps st') n = Some t \<Longrightarrow>
   map_of (grps st) n = Some t \<or> (\<exists>r'. (n, r') \<in> grp_of r \<and> t \<in> lang r')"
proof (induction r st arbitrary: st' rule: ms.induct)
  case (4 a b st)
  from "4.prems" obtain st1 where s1: "st1 \<in> set (ms a st)" and s2: "st' \<in> set (ms b st1)"
    by (auto simp: ms_simps)
  from "4.IH"(2) [OF s1 s2 "4.prems"(2)]
  show ?case
  proof
    assume "map_of (grps st1) n = Some t"
    from "4.IH"(1) [OF s1 this] show ?thesis by auto
  next
    assume "\<exists>r'. (n, r') \<in> grp_of b \<and> t \<in> lang r'"
    then show ?thesis by auto
  qed
next
  case (5 a b st)
  then show ?case by (fastforce simp: ms_simps)
next
  case (6 r lo hi st)
  have un: "ms (Rep r lo hi) st =
     (if hi = Some 0 then []
      else concat (map (\<lambda>st'. ms (Rep r (lo - 1) (map_option (\<lambda>h. h - 1) hi)) st')
             (filter (\<lambda>st'. length (rest st') < length (rest st)) (ms r st))))
     @ (if lo = 0 then [st] else [])"
    by (rule ms.simps(6))
  show ?case
  proof (cases "st' = st")
    case True
    then show ?thesis using "6.prems" by simp
  next
    case False
    with "6.prems" un have nz: "hi \<noteq> Some 0"
      and ex: "\<exists>st1 \<in> set (filter (\<lambda>x. length (rest x) < length (rest st)) (ms r st)).
                  st' \<in> set (ms (Rep r (lo - 1) (map_option (\<lambda>h. h - 1) hi)) st1)"
      by (auto split: if_splits)
    from ex obtain st1 where
      f1: "st1 \<in> set (filter (\<lambda>x. length (rest x) < length (rest st)) (ms r st))"
      and s2: "st' \<in> set (ms (Rep r (lo - 1) (map_option (\<lambda>h. h - 1) hi)) st1)" by blast
    from f1 have s1: "st1 \<in> set (ms r st)" by simp
    from "6.IH"(2) [OF nz f1 s2 "6.prems"(2)]
    show ?thesis
    proof
      assume "map_of (grps st1) n = Some t"
      from "6.IH"(1) [OF nz s1 this] show ?thesis by auto
    next
      assume "\<exists>r'. (n, r') \<in> grp_of (Rep r (lo - 1) (map_option (\<lambda>h. h - 1) hi)) \<and> t \<in> lang r'"
      then show ?thesis by auto
    qed
  qed
next
  case (7 k r st)
  from "7.prems"(1) obtain st1 where s1: "st1 \<in> set (ms r st)"
    and st': "st' = st1\<lparr>grps := (k, take (length (rest st) - length (rest st1)) (rest st)) # grps st1\<rparr>"
    by (auto simp: ms_simps)
  from ms_sound [OF s1] obtain u where u: "rest st = u @ rest st1" "u \<in> lang r" by blast
  have tk: "take (length (rest st) - length (rest st1)) (rest st) = u" using u by simp
  show ?case
  proof (cases "n = k")
    case True
    with "7.prems"(2) st' tk have "t = u" by simp
    with u True show ?thesis by auto
  next
    case False
    with "7.prems"(2) st' have "map_of (grps st1) n = Some t" by simp
    from "7.IH" [OF s1 this] show ?thesis by auto
  qed
qed (auto simp: ms_simps split: if_splits list.splits)

lemma match_at_group:
  assumes "match_at r p off s = Some m" and "n \<in> defd r" and "n \<noteq> 0"
  shows "\<exists>t r'. group m n = Some t \<and> (n, r') \<in> grp_of r \<and> t \<in> lang r'"
proof -
  from assms(1) obtain st' sts where ms: "ms r \<lparr>prev = p, rest = s, grps = []\<rparr> = st' # sts"
    and m: "m_groups m = grps st'"
    by (auto simp: match_at_def split: list.splits)
  have mem: "st' \<in> set (ms r \<lparr>prev = p, rest = s, grps = []\<rparr>)" using ms by simp
  from ms_groups_defd [OF mem assms(2)] obtain t where t: "map_of (grps st') n = Some t" by auto
  from ms_groups_lang [OF mem t] obtain r' where "(n, r') \<in> grp_of r" "t \<in> lang r'" by auto
  with t m assms(3) show ?thesis by (auto simp: group_def)
qed

lemma scan_match_at:
  "m \<in> set (scan r p off s) \<Longrightarrow> \<exists>p' off' s'. match_at r p' off' s' = Some m"
proof (induction r p off s rule: scan.induct)
  case (1 r p off)
  then show ?case by (auto split: option.splits)
next
  case (2 r p off c cs)
  then show ?case by (auto split: option.splits)
qed

lemma finditer_group:
  assumes "m \<in> set (finditer r s)" and "n \<in> defd r" and "n \<noteq> 0"
  shows "\<exists>t r'. group m n = Some t \<and> (n, r') \<in> grp_of r \<and> t \<in> lang r'"
  using assms scan_match_at match_at_group unfolding finditer_def by blast

section \<open>The extractor raises no exception\<close>

lemma not_digit_comma [simp]: "\<not> is_digit CHR '',''" "\<not> is_digit CHR ''.''"
  by (simp_all add: is_digit_def code_def)

lemma replace_comma: "replace t '','' [] = filter (\<lambda>c. c \<noteq> CHR '','') t"
proof -
  have "replace_from '','' [] t = filter (\<lambda>c. c \<noteq> CHR '','') t"
    by (induction t) auto
  then show ?thesis by (simp add: replace_def)
qed

lemma lang_rep_digit:
  assumes "t \<in> lang (Rep (Cls Digit) lo hi)"
  shows "(\<forall>c\<in>set t. is_digit c) \<and> (0 < lo \<longrightarrow> t \<noteq> [])"
proof -
  from assms obtain ws where ws: "t = concat ws" "set ws \<subseteq> lang (Cls Digit)" "lo \<le> length ws"
    by auto
  have d: "\<forall>w\<in>set ws. \<exists>c. w = [c] \<and> is_digit c" using ws(2) by auto
  then have "\<forall>c\<in>set t. is_digit c" using ws(1) by auto
  moreover have "0 < lo \<longrightarrow> t \<noteq> []"
  proof
    assume "0 < lo"
    with ws(3) obtain w ws' where "ws = w # ws'" by (cases ws) auto
    with d ws(1) show "t \<noteq> []" by auto
  qed
  ultimately show ?thesis by blast
qed

lemma lang_comma_groups:
  assumes "t \<in> lang (Star (Seq (Lit '','') (Rep (Cls Digit) 3 (Some 3))))"
  shows "\<forall>c\<in>set t. is_digit c \<or> c = CHR '',''"
proof -
  from assms obtain ws where ws: "t = concat ws"
    "set ws \<subseteq> lang (Seq (Lit '','') (Rep (Cls Digit) 3 (Some 3)))"
    by auto
  have "\<forall>w\<in>set ws. \<forall>c\<in>set w. is_digit c \<or> c = CHR '',''"
  proof
    fix w assume "w \<in> set ws"
    with ws(2) have "w \<in> lang (Seq (Lit '','') (Rep (Cls Digit) 3 (Some 3)))" by blast
    then obtain v where "w = '','' @ v" "v \<in> lang (Rep (Cls Digit) 3 (Some 3))"
      by (auto simp del: lang.simps(6))
    with lang_rep_digit [of v 3 "Some 3"] show "\<forall>c\<in>set w. is_digit c \<or> c = CHR '',''"
      by auto
  qed
  with ws(1) show ?thesis by auto
qed

text \<open>The integer part of a number: digits and commas, starting with a digit.\<close>

lemma lang_int_part:
  assumes "a \<in> lang (Alt (Seq (Rep (Cls Digit) 1 (Some 3))
                       (Star (Seq (Lit '','') (Rep (Cls Digit) 3 (Some 3)))))
                  (Plus (Cls Digit)))"
  shows "filter (\<lambda>c. c \<noteq> CHR '','') a \<noteq> [] \<and> (\<forall>c\<in>set (filter (\<lambda>c. c \<noteq> CHR '','') a). is_digit c)"
proof -
  from assms consider
    (grouped) d g where "a = d @ g" "d \<in> lang (Rep (Cls Digit) 1 (Some 3))"
      "g \<in> lang (Star (Seq (Lit '','') (Rep (Cls Digit) 3 (Some 3))))"
  | (plain) "a \<in> lang (Plus (Cls Digit))"
    by auto
  then show ?thesis
  proof cases
    case grouped
    from lang_rep_digit [OF grouped(2)] have d: "\<forall>c\<in>set d. is_digit c" "d \<noteq> []" by auto
    from lang_comma_groups [OF grouped(3)] have g: "\<forall>c\<in>set g. is_digit c \<or> c = CHR '',''" .
    from d obtain x xs where x: "d = x # xs" by (cases d) auto
    with d have "is_digit x" by simp
    then have "x \<noteq> CHR '',''" by auto
    with x grouped(1) have "filter (\<lambda>c. c \<noteq> CHR '','') a \<noteq> []" by simp
    moreover have "\<forall>c\<in>set (filter (\<lambda>c. c \<noteq> CHR '','') a). is_digit c"
      using d g grouped(1) by auto
    ultimately show ?thesis by blast
  next
    case plain
    from lang_rep_digit [OF plain] have d: "\<forall>c\<in>set a. is_digit c" "a \<noteq> []" by auto
    then have "filter (\<lambda>c. c \<noteq> CHR '','') a = a"
      by (auto simp: filter_id_conv)
    with d show ?thesis by simp
  qed
qed

lemma lang_frac_part:
  assumes "f \<in> lang (Opt (Seq (Lit ''.'') (Plus (Cls Digit))))"
  shows "f = [] \<or> (\<exists>ds. f = CHR ''.'' # ds \<and> ds \<noteq> [] \<and> (\<forall>c\<in>set ds. is_digit c))"
proof -
  from assms obtain ws where ws: "f = concat ws"
    "set ws \<subseteq> lang (Seq (Lit ''.'') (Plus (Cls Digit)))" "length ws \<le> 1"
    by auto
  show ?thesis
  proof (cases ws)
    case Nil
    with ws(1) show ?thesis by simp
  next
    case (Cons w ws')
    with ws(3) have "ws' = []" by simp
    with Cons ws(1) have fw: "f = w" by simp
    from Cons ws(2) have "w \<in> lang (Seq (Lit ''.'') (Plus (Cls Digit)))" by simp
    then obtain ds where "w = ''.'' @ ds" "ds \<in> lang (Plus (Cls Digit))"
      by (auto simp del: lang.simps(6))
    with lang_rep_digit [of ds 1 None] fw show ?thesis by auto
  qed
qed

lemma digits_val_nonneg: "0 \<le> digits_val ds"
proof -
  have "0 \<le> n \<Longrightarrow> 0 \<le> foldl (\<lambda>n c. 10 * n + digit_val c) n ds" for n
    by (induction ds arbitrary: n) (auto simp: digit_val_def)
  then show ?thesis by (simp add: digits_val_def)
qed

lemma py_float_digits:
  assumes "D \<noteq> []" and "\<forall>c\<in>set D. is_digit c"
    and "f = [] \<or> (\<exists>ds. f = CHR ''.'' # ds \<and> ds \<noteq> [] \<and> (\<forall>c\<in>set ds. is_digit c))"
  shows "\<exists>v. py_float (D @ f) = Inr v \<and> 0 \<le> v"
proof -
  have tw: "takeWhile is_digit (D @ f) = D" and dw: "dropWhile is_digit (D @ f) = f"
    using assms(2,3) by (auto simp: takeWhile_append2 dropWhile_append2)
  from assms(3) show ?thesis
  proof
    assume f: "f = []"
    have "takeWhile is_digit D = D" "dropWhile is_digit D = []"
      using assms(2) by (simp_all add: takeWhile_eq_all_conv)
    then have "py_float D = Inr (of_int (digits_val D))"
      using assms(1) unfolding py_float_def Let_def by (simp only: if_False list.case)
    with f digits_val_nonneg [of D] show ?thesis by simp
  next
    assume "\<exists>ds. f = CHR ''.'' # ds \<and> ds \<noteq> [] \<and> (\<forall>c\<in>set ds. is_digit c)"
    then obtain ds where ds: "f = CHR ''.'' # ds" "ds \<noteq> []" "\<forall>c\<in>set ds. is_digit c" by blast
    then have "filter (\<lambda>x. \<not> is_digit x) ds = []" by (simp add: filter_empty_conv)
    with tw dw assms(1) ds digits_val_nonneg [of D] digits_val_nonneg [of ds]
    show ?thesis by (simp add: py_float_def Let_def)
  qed
qed

lemma lang_NUM_float:
  assumes "t \<in> lang NUM"
  shows "\<exists>v. to_float (Some t) = Inr v \<and> 0 \<le> v"
proof -
  from assms obtain a f where t: "t = a @ f"
    and a: "a \<in> lang (Alt (Seq (Rep (Cls Digit) 1 (Some 3))
                       (Star (Seq (Lit '','') (Rep (Cls Digit) 3 (Some 3)))))
                  (Plus (Cls Digit)))"
    and f: "f \<in> lang (Opt (Seq (Lit ''.'') (Plus (Cls Digit))))"
    unfolding NUM_def by (auto simp del: lang.simps(6) simp add: lang.simps(4))
  from lang_frac_part [OF f]
  have f': "f = [] \<or> (\<exists>ds. f = CHR ''.'' # ds \<and> ds \<noteq> [] \<and> (\<forall>c\<in>set ds. is_digit c))" .
  have "\<forall>c\<in>set f. c \<noteq> CHR '',''"
  proof
    fix c assume c: "c \<in> set f"
    with f' have "c = CHR ''.'' \<or> is_digit c" by auto
    then show "c \<noteq> CHR '',''" by auto
  qed
  then have ff: "filter (\<lambda>c. c \<noteq> CHR '','') f = f"
    by (simp add: filter_id_conv)
  from lang_int_part [OF a] py_float_digits [OF _ _ f', of "filter (\<lambda>c. c \<noteq> CHR '','') a"]
  have "\<exists>v. py_float (filter (\<lambda>c. c \<noteq> CHR '','') a @ f) = Inr v \<and> 0 \<le> v" by blast
  with t ff show ?thesis by (simp add: to_float_def replace_comma)
qed


lemma finditer_num_group:
  assumes "m \<in> set (finditer pat s)" and "n \<in> defd pat" and "n \<noteq> 0"
    and "\<forall>r'. (n, r') \<in> grp_of pat \<longrightarrow> r' = NUM"
  shows "\<exists>v. to_float (group m n) = Inr v \<and> 0 \<le> v"
proof -
  from finditer_group [OF assms(1-3)] obtain t r' where
    g: "group m n = Some t" "(n, r') \<in> grp_of pat" "t \<in> lang r'" by blast
  with assms(4) have "t \<in> lang NUM" by blast
  from lang_NUM_float [OF this] g(1) show ?thesis by simp
qed

lemma grp_of_simple [simp]:
  "grp_of NUM = {}" "grp_of WS = {}" "grp_of cur_tail = {}"
  by (simp_all add: NUM_def WS_def cur_tail_def CURRENCY_def)

lemma kw_num_groups:
  "grp_of kw = {} \<Longrightarrow> 1 \<in> defd (kw_num kw) \<and> grp_of (kw_num kw) = {(1, NUM)}"
  by (simp add: kw_num_def)

lemma kw_patterns_groups:
  assumes "pat \<in> set upper_patterns \<union> set lower_patterns \<union> set approx_patterns"
  shows "1 \<in> defd pat \<and> grp_of pat = {(1, NUM)}"
proof -
  from assms obtain kw where "pat = kw_num kw" "grp_of kw = {}"
    by (auto simp: upper_patterns_def lower_patterns_def approx_patterns_def)
  with kw_num_groups show ?thesis by simp
qed

lemma interval_patterns_groups:
  assumes "pat \<in> set interval_patterns"
  shows "1 \<in> defd pat \<and> 2 \<in> defd pat \<and> grp_of pat = {(1, NUM), (2, NUM)}"
  using assms by (auto simp: interval_patterns_def)

lemma kw_match_value:
  assumes "pat \<in> set upper_patterns \<union> set lower_patterns \<union> set approx_patterns"
    and "m \<in> set (finditer pat s)"
  shows "\<exists>v. to_float (group m 1) = Inr v \<and> 0 \<le> v"
  using finditer_num_group [OF assms(2), of 1] kw_patterns_groups [OF assms(1)] by simp

lemma interval_match_values:
  assumes "pat \<in> set interval_patterns" and "m \<in> set (finditer pat s)"
  shows "(\<exists>a. to_float (group m 1) = Inr a \<and> 0 \<le> a) \<and> (\<exists>b. to_float (group m 2) = Inr b \<and> 0 \<le> b)"
  using finditer_num_group [OF assms(2), of 1] finditer_num_group [OF assms(2), of 2]
    interval_patterns_groups [OF assms(1)] by simp

lemma interval_step_total:
  assumes "pat \<in> set interval_patterns" and "m \<in> set (finditer pat s)"
  shows "\<exists>st'. interval_step st m = Inr st'"
  using interval_match_values [OF assms] by (auto simp: interval_step_def)

lemma upper_step_total:
  assumes "pat \<in> set upper_patterns" and "m \<in> set (finditer pat s)"
  shows "\<exists>st'. upper_step st m = Inr st'"
  using kw_match_value [of pat m s] assms by (auto simp: upper_step_def)

lemma lower_step_total:
  assumes "pat \<in> set lower_patterns" and "m \<in> set (finditer pat s)"
  shows "\<exists>st'. lower_step st m = Inr st'"
  using kw_match_value [of pat m s] assms by (auto simp: lower_step_def)

lemma approx_step_total:
  assumes "pat \<in> set approx_patterns" and "m \<in> set (finditer pat s)"
  shows "\<exists>st'. approx_step st m = Inr st'"
  using kw_match_value [of pat m s] assms by (auto simp: approx_step_def Let_def)

lemma run_matches_total:
  "(\<And>m st. m \<in> set mts \<Longrightarrow> \<exists>st'. step st m = Inr st') \<Longrightarrow>
   \<exists>st'. run_matches step mts st = Inr st'"
proof (induction mts arbitrary: st)
  case Nil
  then show ?case by simp
next
  case (Cons m mts)
  from Cons.prems [of m st] obtain st1 where "step st m = Inr st1" by auto
  moreover from Cons.IH [of st1] Cons.prems obtain st2 where "run_matches step mts st1 = Inr st2"
    by auto
  ultimately show ?case by simp
qed

lemma run_patterns_total:
  "(\<And>pat s m st. pat \<in> set pats \<Longrightarrow> m \<in> set (finditer pat s) \<Longrightarrow> \<exists>st'. step st m = Inr st')
   \<Longrightarrow> \<exists>st'. run_patterns step pats st = Inr st'"
proof (induction pats arbitrary: st)
  case Nil
  then show ?case by simp
next
  case (Cons pat pats)
  have "\<exists>st1. run_matches step (finditer pat (s_text st)) st = Inr st1"
    by (rule run_matches_total) (rule Cons.prems, simp_all)
  then obtain st1 where "run_matches step (finditer pat (s_text st)) st = Inr st1" by blast
  moreover have "\<exists>st2. run_patterns step pats st1 = Inr st2"
    by (rule Cons.IH) (rule Cons.prems, simp_all)
  ultimately show ?case by auto
qed

lemma numeric_passes_total: "\<exists>st. numeric_passes st0 = Inr st"
proof -
  obtain st1 where 1: "run_patterns interval_step interval_patterns st0 = Inr st1"
    using run_patterns_total [of interval_patterns interval_step st0] interval_step_total by blast
  obtain st2 where 2: "run_patterns upper_step upper_patterns st1 = Inr st2"
    using run_patterns_total [of upper_patterns upper_step st1] upper_step_total by blast
  obtain st3 where 3: "run_patterns lower_step lower_patterns st2 = Inr st3"
    using run_patterns_total [of lower_patterns lower_step st2] lower_step_total by blast
  obtain st4 where 4: "run_patterns approx_step approx_patterns st3 = Inr st4"
    using run_patterns_total [of approx_patterns approx_step st3] approx_step_total by blast
  from 1 2 3 4 show ?thesis by (simp add: numeric_passes_def)
qed

lemma extract_total: "\<exists>c mn mx. extract_price_filters q = Inr (c, mn, mx)"
proof -
  obtain st where "numeric_passes (initial q) = Inr st" using numeric_passes_total by blast
  then show ?thesis by (simp add: extract_price_filters_def finish_def Let_def)
qed

section \<open>The passes only tighten the range\<close>

lemma cheap_step_min [simp]: "min_price (cheap_step st) = min_price st"
  by (simp add: cheap_step_def split: option.splits)

lemma expensive_step_max [simp]: "max_price (expensive_step st) = max_price st"
  by (simp add: expensive_step_def split: option.splits)

lemma cheap_step_max:
  "max_price (cheap_step st) =
     (if search_re cheap_pattern (s_text st) = None then max_price st
      else (case max_price st of None \<Rightarrow> Some 15 | Some v \<Rightarrow> Some v))"
  by (simp add: cheap_step_def split: option.splits)

lemma expensive_step_min:
  "min_price (expensive_step st) =
     (if search_re expensive_pattern (s_text st) = None then min_price st
      else (case min_price st of None \<Rightarrow> Some 100 | Some v \<Rightarrow> Some v))"
  by (simp add: expensive_step_def split: option.splits)

lemma extract_finish:
  "numeric_passes (initial q) = Inr st \<Longrightarrow>
   extract_price_filters q = Inr (finish q (expensive_step (cheap_step st)))"
  by (simp add: extract_price_filters_def)

lemma tighter_refl [simp]: "tighter st st"
  by (simp add: tighter_def split: option.splits)

lemma tighter_trans: "tighter a b \<Longrightarrow> tighter b c \<Longrightarrow> tighter a c"
  by (auto simp: tighter_def split: option.splits)

lemma tighten_min_ge: "tighten_min (Some v) x = Some (max v x)" "tighten_min None x = Some x"
  by (simp_all add: tighten_min_def)

lemma tighten_max_le: "tighten_max (Some v) x = Some (min v x)" "tighten_max None x = Some x"
  by (simp_all add: tighten_max_def)

text \<open>
  The update rules on the captured values: an interval match folds the smaller of its
  two numbers into the lower bound and the larger into the upper bound, whichever
  comes first; two matches of a bound loop leave the minimum (the maximum, for lower
  bounds) of their two numbers, combined with any earlier bound in the same way.
\<close>

lemma interval_step_sorted:
  assumes "to_float (group m 1) = Inr a" and "to_float (group m 2) = Inr b"
    and "to_float (group m' 1) = Inr b" and "to_float (group m' 2) = Inr a"
  shows "\<exists>t t'. interval_step st m = Inr t \<and> interval_step st m' = Inr t'
            \<and> min_price t = tighten_min (min_price st) (min a b)
            \<and> max_price t = tighten_max (max_price st) (max a b)
            \<and> min_price t' = min_price t \<and> max_price t' = max_price t"
  using assms by (simp add: interval_step_def min.commute max.commute)

lemma two_matches_tighten:
  assumes "to_float (group m1 1) = Inr x" and "to_float (group m2 1) = Inr y"
  shows "(\<exists>t. run_matches upper_step [m1, m2] st = Inr t
            \<and> max_price t = (case max_price st of None \<Rightarrow> Some (min x y)
                              | Some v \<Rightarrow> Some (min v (min x y)))
            \<and> min_price t = min_price st)
       \<and> (\<exists>t. run_matches lower_step [m1, m2] st = Inr t
            \<and> min_price t = (case min_price st of None \<Rightarrow> Some (max x y)
                              | Some v \<Rightarrow> Some (max v (max x y)))
            \<and> max_price t = max_price st)"
  using assms
  by (simp add: upper_step_def lower_step_def tighten_max_def tighten_min_def
        min.assoc max.assoc split: option.splits)

lemma interval_step_tighter: "interval_step st m = Inr st' \<Longrightarrow> tighter st st'"
  by (auto simp: interval_step_def tighter_def tighten_min_def tighten_max_def
        split: sum.splits option.splits)

lemma upper_step_tighter: "upper_step st m = Inr st' \<Longrightarrow> tighter st st'"
  by (auto simp: upper_step_def tighter_def tighten_min_def tighten_max_def
        split: sum.splits option.splits)

lemma lower_step_tighter: "lower_step st m = Inr st' \<Longrightarrow> tighter st st'"
  by (auto simp: lower_step_def tighter_def tighten_min_def tighten_max_def
        split: sum.splits option.splits)

lemma approx_step_tighter: "approx_step st m = Inr st' \<Longrightarrow> tighter st st'"
  by (auto simp: approx_step_def tighter_def tighten_min_def tighten_max_def Let_def
        split: sum.splits option.splits if_splits)

lemma run_matches_tighter:
  assumes "\<And>st m st'. step st m = Inr st' \<Longrightarrow> tighter st st'"
  shows "run_matches step mts st = Inr st' \<Longrightarrow> tighter st st'"
proof (induction mts arbitrary: st)
  case Nil
  then show ?case by simp
next
  case (Cons m mts)
  from Cons.prems obtain st1 where 1: "step st m = Inr st1"
    and 2: "run_matches step mts st1 = Inr st'"
    by (auto split: sum.splits)
  from assms [OF 1] Cons.IH [OF 2] show ?case by (rule tighter_trans)
qed

lemma run_patterns_tighter:
  assumes "\<And>st m st'. step st m = Inr st' \<Longrightarrow> tighter st st'"
  shows "run_patterns step pats st = Inr st' \<Longrightarrow> tighter st st'"
proof (induction pats arbitrary: st)
  case Nil
  then show ?case by simp
next
  case (Cons pat pats)
  from Cons.prems obtain st1 where 1: "run_matches step (finditer pat (s_text st)) st = Inr st1"
    and 2: "run_patterns step pats st1 = Inr st'"
    by (auto split: sum.splits)
  from run_matches_tighter [of step, OF assms 1] Cons.IH [OF 2] show ?case
    by (rule tighter_trans)
qed

lemma numeric_passes_tighter:
  assumes "numeric_passes st = Inr st'"
  shows "tighter st st'"
proof -
  from assms obtain st1 st2 st3 where
    1: "run_patterns interval_step interval_patterns st = Inr st1" and
    2: "run_patterns upper_step upper_patterns st1 = Inr st2" and
    3: "run_patterns lower_step lower_patterns st2 = Inr st3" and
    4: "run_patterns approx_step approx_patterns st3 = Inr st'"
    by (auto simp: numeric_passes_def split: sum.splits)
  have "tighter st st1"
    using run_patterns_tighter [of interval_step, OF interval_step_tighter 1] .
  moreover have "tighter st1 st2"
    using run_patterns_tighter [of upper_step, OF upper_step_tighter 2] .
  moreover have "tighter st2 st3"
    using run_patterns_tighter [of lower_step, OF lower_step_tighter 3] .
  moreover have "tighter st3 st'"
    using run_patterns_tighter [of approx_step, OF approx_step_tighter 4] .
  ultimately show ?thesis by (blast intro: tighter_trans)
qed

lemma soft_steps_tighter: "tighter st (expensive_step (cheap_step st))"
  by (auto simp: tighter_def cheap_step_max expensive_step_min split: option.splits)

section \<open>Splitting and joining\<close>

lemma split_Nil [simp]: "split [] = []"
  by (simp add: split.simps)

lemma split_all_space: "\<forall>c\<in>set p. is_space c \<Longrightarrow> split p = []"
  by (simp add: split.simps [of p] dropWhile_eq_Nil_conv [THEN iffD2])

lemma split_space_Cons: "is_space c \<Longrightarrow> split (c # s) = split s"
  by (simp add: split.simps [of "c # s"] split.simps [of s])

lemma split_dropWhile: "split (dropWhile is_space s) = split s"
  by (simp add: split.simps [of "dropWhile is_space s"] split.simps [of s])

lemma split_nonspace_Cons:
  "\<not> is_space c \<Longrightarrow> split (c # s) = (c # takeWhile nsp s) # split (dropWhile nsp s)"
  by (simp add: split.simps [of "c # s"])

lemma space_run_tw: "r = [] \<or> is_space (hd r) \<Longrightarrow> takeWhile nsp r = []"
  by (cases r) auto

lemma space_run_dw: "r = [] \<or> is_space (hd r) \<Longrightarrow> dropWhile nsp r = r"
  by (cases r) auto

lemma split_token_app:
  assumes "w \<noteq> []" and "\<forall>c\<in>set w. \<not> is_space c" and "r = [] \<or> is_space (hd r)"
  shows "split (w @ r) = w # split r"
proof -
  from assms(1) obtain c w' where w: "w = c # w'" by (cases w) auto
  with assms(2) have c: "\<not> is_space c" and w': "\<forall>x\<in>set w'. nsp x" by auto
  have "takeWhile nsp (w' @ r) = w'" "dropWhile nsp (w' @ r) = r"
    using w' assms(3) by (simp_all add: takeWhile_append2 dropWhile_append2 space_run_tw space_run_dw)
  with c w show ?thesis by (simp add: split_nonspace_Cons)
qed

lemma split_tokens:
  "w \<in> set (split s) \<Longrightarrow> w \<noteq> [] \<and> (\<forall>c\<in>set w. \<not> is_space c) \<and> set w \<subseteq> set s"
proof (induction s arbitrary: w rule: split.induct)
  case (1 s)
  show ?case
  proof (cases "dropWhile is_space s")
    case Nil
    with "1.prems" show ?thesis by (simp add: split.simps [of s])
  next
    case (Cons c cs)
    then have c: "\<not> is_space c" by (simp add: dropWhile_eq_Cons_conv)
    have sub: "set (c # cs) \<subseteq> set s" using Cons set_dropWhileD [of _ is_space s] by auto
    from "1.prems" Cons have
      "w = c # takeWhile nsp cs \<or> w \<in> set (split (dropWhile nsp cs))"
      by (simp add: split.simps [of s])
    then show ?thesis
    proof
      assume w: "w = c # takeWhile nsp cs"
      have "\<forall>x\<in>set (takeWhile nsp cs). \<not> is_space x" by (auto dest: set_takeWhileD)
      moreover have "set (takeWhile nsp cs) \<subseteq> set cs" by (auto dest: set_takeWhileD)
      ultimately show ?thesis using w c sub by auto
    next
      assume "w \<in> set (split (dropWhile nsp cs))"
      from "1.IH" [OF Cons this]
      have "w \<noteq> [] \<and> (\<forall>c\<in>set w. \<not> is_space c) \<and> set w \<subseteq> set (dropWhile nsp cs)" .
      moreover have "set (dropWhile nsp cs) \<subseteq> set cs" by (auto dest: set_dropWhileD)
      ultimately show ?thesis using sub by auto
    qed
  qed
qed

lemma is_space_blank [simp]: "is_space CHR '' ''"
  by (simp add: is_space_def code_def)

lemma split_join:
  "(\<And>w. w \<in> set ws \<Longrightarrow> w \<noteq> [] \<and> (\<forall>c\<in>set w. \<not> is_space c)) \<Longrightarrow>
   split (join '' '' ws) = ws"
proof (induction "'' ''" ws rule: join.induct)
  case 1
  then show ?case by simp
next
  case (2 x)
  then have "split (x @ []) = x # split []" by (intro split_token_app) auto
  then show ?case by simp
next
  case (3 x y ys)
  have "split (x @ ('' '' @ join '' '' (y # ys))) = x # split ('' '' @ join '' '' (y # ys))"
    using "3.prems" by (intro split_token_app) auto
  also have "split ('' '' @ join '' '' (y # ys)) = split (join '' '' (y # ys))"
    by (simp add: split_space_Cons)
  also have "\<dots> = y # ys" using "3.prems" by (intro "3.hyps") auto
  finally show ?case by simp
qed

lemma split_join_split: "split (join '' '' (split s)) = split s"
  by (rule split_join) (use split_tokens in blast)

lemma split_trailing:
  "\<forall>c\<in>set p. is_space c \<Longrightarrow> split (y @ p) = split y"
proof (induction y rule: split.induct)
  case (1 s)
  show ?case
  proof (cases "dropWhile is_space s")
    case Nil
    then have "\<forall>c\<in>set s. is_space c" by (simp add: dropWhile_eq_Nil_conv)
    with "1.prems" have "\<forall>c\<in>set (s @ p). is_space c" by auto
    then have "split (s @ p) = []" by (rule split_all_space)
    moreover have "split s = []" using \<open>\<forall>c\<in>set s. is_space c\<close> by (rule split_all_space)
    ultimately show ?thesis by simp
  next
    case (Cons c cs)
    then have "\<exists>x\<in>set s. \<not> is_space x"
      by (metis dropWhile_eq_Nil_conv list.distinct(1))
    then have dw: "dropWhile is_space (s @ p) = c # (cs @ p)"
      using Cons by (auto simp: dropWhile_append1)
    have L: "split (s @ p) = (c # takeWhile nsp (cs @ p)) # split (dropWhile nsp (cs @ p))"
      using dw by (simp add: split.simps [of "s @ p"])
    have R: "split s = (c # takeWhile nsp cs) # split (dropWhile nsp cs)"
      using Cons by (simp add: split.simps [of s])
    have p: "p = [] \<or> is_space (hd p)" using "1.prems" by (cases p) auto
    show ?thesis
    proof (cases "\<exists>x\<in>set cs. is_space x")
      case True
      then have "takeWhile nsp (cs @ p) = takeWhile nsp cs"
        "dropWhile nsp (cs @ p) = dropWhile nsp cs @ p"
        by (auto simp: takeWhile_append1 dropWhile_append1)
      with L R "1.IH" [OF Cons "1.prems"] show ?thesis by simp
    next
      case False
      then have "takeWhile nsp (cs @ p) = cs" "dropWhile nsp (cs @ p) = p"
        "takeWhile nsp cs = cs" "dropWhile nsp cs = []"
        using p by (simp_all add: takeWhile_append2 dropWhile_append2 space_run_tw space_run_dw)
      with L R split_all_space [OF "1.prems"] show ?thesis by simp
    qed
  qed
qed

lemma split_strip: "split (strip x) = split x"
proof -
  let ?y = "dropWhile is_space x"
  have "rev (takeWhile is_space (rev ?y) @ dropWhile is_space (rev ?y)) = ?y"
    by (simp only: takeWhile_dropWhile_id rev_rev_ident)
  then have "rev (dropWhile is_space (rev ?y)) @ rev (takeWhile is_space (rev ?y)) = ?y"
    by (simp only: rev_append)
  then have y: "?y = strip x @ rev (takeWhile is_space (rev ?y))"
    by (simp only: strip_def)
  have "\<forall>c\<in>set (rev (takeWhile is_space (rev ?y))). is_space c"
    by (auto dest: set_takeWhileD)
  from split_trailing [OF this, of "strip x"] y have "split ?y = split (strip x)" by simp
  then show ?thesis by (simp add: split_dropWhile)
qed

lemma split_padded: "split ('' '' @ strip x @ '' '') = split x"
proof -
  have "split ('' '' @ strip x @ '' '') = split (strip x @ '' '')"
    by (simp add: split_space_Cons)
  also have "\<dots> = split (strip x)" by (rule split_trailing) simp
  finally show ?thesis by (simp add: split_strip)
qed

lemma lower_char_idem: "lower_char (lower_char c) = lower_char c"
  by (auto simp: lower_char_def code_def Let_def)

section \<open>An unconstrained result means that nothing matched\<close>

lemma tighter_unbounded: "tighter st st' \<Longrightarrow> unbounded st' \<Longrightarrow> unbounded st"
  by (auto simp: tighter_def unbounded_def split: option.splits)

lemma steps_bound:
  "interval_step st m = Inr st' \<Longrightarrow> \<not> unbounded st'"
  "upper_step st m = Inr st' \<Longrightarrow> \<not> unbounded st'"
  "lower_step st m = Inr st' \<Longrightarrow> \<not> unbounded st'"
  "approx_step st m = Inr st' \<Longrightarrow> \<not> unbounded st'"
  by (auto simp: interval_step_def upper_step_def lower_step_def approx_step_def unbounded_def
        tighten_min_def tighten_max_def Let_def split: sum.splits option.splits)

lemma run_matches_unbounded:
  assumes t: "\<And>st m st'. step st m = Inr st' \<Longrightarrow> tighter st st'"
    and b: "\<And>st m st'. step st m = Inr st' \<Longrightarrow> \<not> unbounded st'"
    and r: "run_matches step mts st = Inr st'" and u: "unbounded st'"
  shows "mts = [] \<and> st' = st"
proof (cases mts)
  case Nil
  with r show ?thesis by simp
next
  case (Cons m mts')
  with r obtain st1 where 1: "step st m = Inr st1" and 2: "run_matches step mts' st1 = Inr st'"
    by (auto split: sum.splits)
  from run_matches_tighter [of step, OF t 2] u have "unbounded st1" by (rule tighter_unbounded)
  with b [OF 1] show ?thesis by simp
qed

lemma run_patterns_unbounded:
  assumes t: "\<And>st m st'. step st m = Inr st' \<Longrightarrow> tighter st st'"
    and b: "\<And>st m st'. step st m = Inr st' \<Longrightarrow> \<not> unbounded st'"
  shows "run_patterns step pats st = Inr st' \<Longrightarrow> unbounded st' \<Longrightarrow>
         st' = st \<and> list_all (\<lambda>pat. finditer pat (s_text st) = []) pats"
proof (induction pats arbitrary: st)
  case Nil
  then show ?case by simp
next
  case (Cons pat pats)
  from Cons.prems(1) obtain st1 where
    1: "run_matches step (finditer pat (s_text st)) st = Inr st1"
    and 2: "run_patterns step pats st1 = Inr st'"
    by (auto split: sum.splits)
  from Cons.IH [OF 2 Cons.prems(2)]
  have 3: "st' = st1" and 4: "list_all (\<lambda>pat. finditer pat (s_text st1) = []) pats" by auto
  from run_matches_unbounded [of step, OF t b 1] 3 Cons.prems(2)
  have "finditer pat (s_text st) = [] \<and> st1 = st" by simp
  with 3 4 show ?case by simp
qed

lemma run_patterns_nomatch:
  "list_all (\<lambda>pat. finditer pat (s_text st) = []) pats \<Longrightarrow> run_patterns step pats st = Inr st"
  by (induction pats) auto

lemma numeric_passes_nomatch:
  assumes "list_all (\<lambda>pat. finditer pat (s_text st) = []) numeric_patterns"
  shows "numeric_passes st = Inr st"
  using assms by (simp add: numeric_patterns_def numeric_passes_def run_patterns_nomatch)

lemma numeric_passes_unbounded:
  assumes n: "numeric_passes st = Inr st'" and u: "unbounded st'"
  shows "st' = st \<and> list_all (\<lambda>pat. finditer pat (s_text st) = []) numeric_patterns"
proof -
  from n obtain st1 st2 st3 where
    1: "run_patterns interval_step interval_patterns st = Inr st1" and
    2: "run_patterns upper_step upper_patterns st1 = Inr st2" and
    3: "run_patterns lower_step lower_patterns st2 = Inr st3" and
    4: "run_patterns approx_step approx_patterns st3 = Inr st'"
    by (auto simp: numeric_passes_def split: sum.splits)
  from run_patterns_unbounded [of approx_step, OF approx_step_tighter steps_bound(4) 4 u]
  have a: "st' = st3" "list_all (\<lambda>pat. finditer pat (s_text st3) = []) approx_patterns" by auto
  from run_patterns_unbounded [of lower_step, OF lower_step_tighter steps_bound(3) 3] a u
  have l: "st3 = st2" "list_all (\<lambda>pat. finditer pat (s_text st2) = []) lower_patterns" by auto
  from run_patterns_unbounded [of upper_step, OF upper_step_tighter steps_bound(2) 2] a l u
  have p: "st2 = st1" "list_all (\<lambda>pat. finditer pat (s_text st1) = []) upper_patterns" by auto
  from run_patterns_unbounded [of interval_step, OF interval_step_tighter steps_bound(1) 1] a l p u
  have i: "st1 = st" "list_all (\<lambda>pat. finditer pat (s_text st) = []) interval_patterns" by auto
  from a l p i show ?thesis by (simp add: numeric_patterns_def)
qed

lemma initial_unbounded [simp]: "unbounded (initial q)"
  by (simp add: initial_def unbounded_def)

lemma squish_initial: "join '' '' (split (s_text (initial q))) = join '' '' (split (lower q))"
  by (simp only: initial_def pstate.select_convs split_padded)

lemma extract_no_phrase:
  assumes "no_price_phrase q"
  shows "extract_price_filters q = Inr (plain_result q)"
proof -
  from assms have n: "numeric_passes (initial q) = Inr (initial q)"
    by (simp add: no_price_phrase_def Let_def numeric_passes_nomatch)
  from assms have "cheap_step (initial q) = initial q"
    by (simp add: no_price_phrase_def Let_def cheap_step_def)
  moreover from assms have "expensive_step (initial q) = initial q"
    by (simp add: no_price_phrase_def Let_def expensive_step_def)
  ultimately have "extract_price_filters q = Inr (finish q (initial q))"
    using extract_finish [OF n] by simp
  moreover have "finish q (initial q) = plain_result q"
    using initial_unbounded [of q]
    by (simp add: finish_def plain_result_def squish_initial unbounded_def)
  ultimately show ?thesis by simp
qed

lemma extract_unbounded:
  assumes "extract_price_filters q = Inr (c, None, None)"
  shows "no_price_phrase q"
proof -
  obtain st where st: "numeric_passes (initial q) = Inr st" using numeric_passes_total by blast
  from extract_finish [OF st] assms
  have f: "finish q (expensive_step (cheap_step st)) = (c, None, None)" by simp
  then have mn: "min_price (expensive_step (cheap_step st)) = None"
    and mx: "max_price (expensive_step (cheap_step st)) = None"
    by (simp_all add: finish_def Let_def)
  from mx have mx': "max_price (cheap_step st) = None" by simp
  then have ch: "search_re cheap_pattern (s_text st) = None" and mxs: "max_price st = None"
    by (auto simp: cheap_step_max split: if_splits option.splits)
  then have cs: "cheap_step st = st" by (simp add: cheap_step_def)
  from mn cs have ex: "search_re expensive_pattern (s_text st) = None" and mns: "min_price st = None"
    by (auto simp: expensive_step_min split: if_splits option.splits)
  from mns mxs have "unbounded st" by (simp add: unbounded_def)
  from numeric_passes_unbounded [OF st this] ch ex show ?thesis
    by (simp add: no_price_phrase_def Let_def)
qed

section \<open>The working text stays in lower case\<close>

lemma lowered_lower: "lowered (lower q)"
  by (simp add: lowered_def lower_def lower_char_idem)

lemma lower_lowered: "lowered s \<Longrightarrow> lower s = s"
  by (simp add: lowered_def lower_def map_idI)

lemma lower_char_blank [simp]: "lower_char CHR '' '' = CHR '' ''"
  by (simp add: lower_char_def code_def)

lemma lowered_subset: "lowered s \<Longrightarrow> set t \<subseteq> insert CHR '' '' (set s) \<Longrightarrow> lowered t"
  by (auto simp: lowered_def)

lemma set_strip: "set (strip s) \<subseteq> set s"
  by (auto simp: strip_def dest!: set_dropWhileD)

lemma set_replace_from: "set (replace_from old new s) \<subseteq> set s \<union> set new"
proof (induction old new s rule: replace_from.induct)
  case (1 old new)
  then show ?case by simp
next
  case (2 old new c cs)
  have "set (drop (length old - 1) cs) \<subseteq> set cs" by (rule set_drop_subset)
  with 2 show ?case by (auto split: if_splits)
qed

lemma set_replace: "set (replace s old new) \<subseteq> set s \<union> set new"
  using set_replace_from [of old new s] by (auto simp: replace_def)

lemma set_splice: "set (splice repl pos s mts) \<subseteq> set s \<union> set repl"
proof (induction mts arbitrary: pos)
  case Nil
  then show ?case using set_drop_subset [of pos s] by auto
next
  case (Cons m mts)
  have "set (take (m_start m - pos) (drop pos s)) \<subseteq> set s"
    using set_take_subset [of "m_start m - pos" "drop pos s"] set_drop_subset [of pos s] by blast
  with Cons [of "m_end m"] show ?case by auto
qed

lemma replace_blank_lowered: "lowered s \<Longrightarrow> lowered (replace s old '' '')"
  using set_replace [of s old "'' ''"] by (auto intro: lowered_subset)

lemma steps_lowered:
  "interval_step st m = Inr st' \<Longrightarrow> lowered (s_text st) \<Longrightarrow> lowered (s_text st')"
  "upper_step st m = Inr st' \<Longrightarrow> lowered (s_text st) \<Longrightarrow> lowered (s_text st')"
  "lower_step st m = Inr st' \<Longrightarrow> lowered (s_text st) \<Longrightarrow> lowered (s_text st')"
  "approx_step st m = Inr st' \<Longrightarrow> lowered (s_text st) \<Longrightarrow> lowered (s_text st')"
  by (auto simp: interval_step_def upper_step_def lower_step_def approx_step_def Let_def
        replace_blank_lowered split: sum.splits)

lemma run_matches_lowered:
  assumes "\<And>st m st'. step st m = Inr st' \<Longrightarrow> lowered (s_text st) \<Longrightarrow> lowered (s_text st')"
  shows "run_matches step mts st = Inr st' \<Longrightarrow> lowered (s_text st) \<Longrightarrow> lowered (s_text st')"
proof (induction mts arbitrary: st)
  case Nil
  then show ?case by simp
next
  case (Cons m mts)
  from Cons.prems(1) obtain st1 where 1: "step st m = Inr st1"
    and 2: "run_matches step mts st1 = Inr st'"
    by (auto split: sum.splits)
  from assms [OF 1 Cons.prems(2)] Cons.IH [OF 2] show ?case by simp
qed

lemma run_patterns_lowered:
  assumes "\<And>st m st'. step st m = Inr st' \<Longrightarrow> lowered (s_text st) \<Longrightarrow> lowered (s_text st')"
  shows "run_patterns step pats st = Inr st' \<Longrightarrow> lowered (s_text st) \<Longrightarrow> lowered (s_text st')"
proof (induction pats arbitrary: st)
  case Nil
  then show ?case by simp
next
  case (Cons pat pats)
  from Cons.prems(1) obtain st1 where
    1: "run_matches step (finditer pat (s_text st)) st = Inr st1"
    and 2: "run_patterns step pats st1 = Inr st'"
    by (auto split: sum.splits)
  from run_matches_lowered [of step, OF assms 1 Cons.prems(2)] Cons.IH [OF 2] show ?case by simp
qed

lemma numeric_passes_lowered:
  assumes "numeric_passes st = Inr st'" and "lowered (s_text st)"
  shows "lowered (s_text st')"
proof -
  from assms(1) obtain st1 st2 st3 where
    1: "run_patterns interval_step interval_patterns st = Inr st1" and
    2: "run_patterns upper_step upper_patterns st1 = Inr st2" and
    3: "run_patterns lower_step lower_patterns st2 = Inr st3" and
    4: "run_patterns approx_step approx_patterns st3 = Inr st'"
    by (auto simp: numeric_passes_def split: sum.splits)
  from run_patterns_lowered [of interval_step, OF steps_lowered(1) 1 assms(2)]
  have "lowered (s_text st1)" .
  from run_patterns_lowered [of upper_step, OF steps_lowered(2) 2 this]
  have "lowered (s_text st2)" .
  from run_patterns_lowered [of lower_step, OF steps_lowered(3) 3 this]
  have "lowered (s_text st3)" .
  from run_patterns_lowered [of approx_step, OF steps_lowered(4) 4 this]
  show ?thesis .
qed

lemma sub_blank_lowered: "lowered s \<Longrightarrow> lowered (sub_re r '' '' s)"
  using set_splice [of "'' ''" 0 s "finditer r s"] by (auto simp: sub_re_def intro: lowered_subset)

lemma soft_steps_lowered:
  "lowered (s_text st) \<Longrightarrow> lowered (s_text (expensive_step (cheap_step st)))"
  by (auto simp: cheap_step_def expensive_step_def sub_blank_lowered split: option.splits)

lemma initial_lowered: "lowered (s_text (initial q))"
  using lowered_lower [of q] set_strip [of "lower q"]
  by (auto simp: initial_def lowered_def)

lemma set_join: "set (join sep ws) \<subseteq> set sep \<union> \<Union> (set ` set ws)"
  by (induction sep ws rule: join.induct) auto

lemma squish_lowered: "lowered s \<Longrightarrow> lowered (join '' '' (split s))"
proof -
  assume l: "lowered s"
  have "set (join '' '' (split s)) \<subseteq> insert CHR '' '' (set s)"
    using set_join [of "'' ''" "split s"] split_tokens [of _ s] by auto
  with l show ?thesis by (rule lowered_subset)
qed

section \<open>An interval needs a keyword or a dash\<close>









section \<open>The soft patterns match the standalone words\<close>

lemma good_cheap: "good_words cheap_words"
  by (simp add: good_words_def cheap_words_def is_word_def is_space_def code_def)

lemma good_expensive: "good_words expensive_words"
  by (simp add: good_words_def expensive_words_def is_word_def is_space_def code_def)

text \<open>The matcher on a pattern \<open>\b(w1|w2|w3)\b\<close>.\<close>

lemma take_next_char:
  "w \<noteq> [] \<Longrightarrow> take (length w) s = w \<Longrightarrow> next_char s = Some (hd w)"
  by (cases w; cases s) (auto simp: next_char_def)

lemma ms_word_pattern:
  assumes "w1 \<noteq> []" "w2 \<noteq> []" "w3 \<noteq> []"
  shows "ms (Seq WordB (Seq (Grp n (Alt (Lit w1) (Alt (Lit w2) (Lit w3)))) WordB)) st =
     (if word_opt (prev st) \<noteq> word_opt (next_char (rest st))
      then concat (map (\<lambda>w.
             if take (length w) (rest st) = w
                \<and> word_opt (Some (last w)) \<noteq> word_opt (next_char (drop (length w) (rest st)))
             then [st\<lparr>prev := Some (last w), rest := drop (length w) (rest st),
                      grps := (n, w) # grps st\<rparr>]
             else []) [w1, w2, w3])
      else [])"
proof -
  have tk: "take (length (rest st) - (length (rest st) - length w)) (rest st) = w"
    if "take (length w) (rest st) = w" for w
  proof -
    from that have "length (take (length w) (rest st)) = length w" by simp
    then have "length w \<le> length (rest st)" by simp
    then have "length (rest st) - (length (rest st) - length w) = length w" by simp
    with that show ?thesis by simp
  qed
  show ?thesis using assms
    by (auto simp: ms_simps tk)
qed


lemma good_word_facts:
  assumes "good_words W" and "w \<in> set W"
  shows "w \<noteq> []" and "word_opt (Some (last w))" and "take (length w) s = w \<Longrightarrow> word_opt (next_char s)"
    and "\<forall>c\<in>set w. \<not> is_space c"
proof -
  from assms have g: "w \<noteq> []" "is_word (hd w)" "is_word (last w)" "\<forall>c\<in>set w. \<not> is_space c"
    by (auto simp: good_words_def)
  show "w \<noteq> []" by (rule g)
  show "word_opt (Some (last w))" using g by (simp add: word_opt_def)
  show "\<forall>c\<in>set w. \<not> is_space c" by (rule g)
  show "word_opt (next_char s)" if "take (length w) s = w"
    using take_next_char [OF g(1) that] g(2) by (simp add: word_opt_def)
qed

lemma take_take_len:
  "take (length w) s = w \<Longrightarrow> take (length s - length (drop (length w) s)) s = w"
proof -
  assume a: "take (length w) s = w"
  then have "length (take (length w) s) = length w" by simp
  then have "length w \<le> length s" by simp
  then have "length s - length (drop (length w) s) = length w" by simp
  with a show ?thesis by simp
qed

lemma take_len_sub:
  "take (length w) s = w \<Longrightarrow> length s - (length s - length w) = length w"
proof -
  assume a: "take (length w) s = w"
  then have "length (take (length w) s) = length w" by simp
  then show ?thesis by simp
qed

lemma soft_pattern_words:
  assumes g: "good_words [w1, w2, w3]"
  shows "soft_pattern (Seq WordB (Seq (Grp 1 (Alt (Lit w1) (Alt (Lit w2) (Lit w3)))) WordB))
           [w1, w2, w3]"
proof -
  let ?P = "Seq WordB (Seq (Grp 1 (Alt (Lit w1) (Alt (Lit w2) (Lit w3)))) WordB)"
  have ne: "w1 \<noteq> []" "w2 \<noteq> []" "w3 \<noteq> []"
    using good_word_facts(1) [OF g] by simp_all
  have lw: "word_opt (Some (last w1))" "word_opt (Some (last w2))" "word_opt (Some (last w3))"
    using good_word_facts(2) [OF g] by simp_all
  have nx: "take (length w1) s = w1 \<Longrightarrow> word_opt (next_char s)"
    "take (length w2) s = w2 \<Longrightarrow> word_opt (next_char s)"
    "take (length w3) s = w3 \<Longrightarrow> word_opt (next_char s)" for s
    using good_word_facts(3) [OF g, of w1 s] good_word_facts(3) [OF g, of w2 s]
      good_word_facts(3) [OF g, of w3 s] by simp_all
  have none: "(match_at ?P p off s = None) = (\<not> word_at [w1, w2, w3] p s)" for p off s
    using lw nx [of s]
    by (auto simp: match_at_def ms_word_pattern [OF ne] word_at_def split: list.splits)
  have some: "m_text m \<in> set [w1, w2, w3] \<and> take (length (m_text m)) s = m_text m
      \<and> \<not> word_opt (next_char (drop (length (m_text m)) s))"
    if "match_at ?P p off s = Some m" for p off s m
    using that lw nx [of s]
    by (auto simp: match_at_def ms_word_pattern [OF ne] take_len_sub
          split: list.splits if_splits)
  from g none some show ?thesis unfolding soft_pattern_def by blast
qed

lemma soft_cheap: "soft_pattern cheap_pattern cheap_words"
  using soft_pattern_words [of "''cheap''" "''inexpensive''" "''budget''"] good_cheap
  by (simp add: cheap_pattern_def cheap_words_def)

lemma soft_expensive: "soft_pattern expensive_pattern expensive_words"
  using soft_pattern_words [of "''expensive''" "''premium''" "''high-end''"] good_expensive
  by (simp add: expensive_pattern_def expensive_words_def)

section \<open>Substitution as a single pass\<close>

lemma match_at_None_off: "(match_at r p off s = None) = (match_at r p 0 s = None)"
  by (simp add: match_at_def split: list.splits)

lemma match_at_Some_off:
  assumes "match_at r p off s = Some m"
  shows "\<exists>m0. match_at r p 0 s = Some m0 \<and> m_text m0 = m_text m
           \<and> m_start m = off \<and> m_end m = off + length (m_text m)"
  using assms by (auto simp: match_at_def split: list.splits)

lemma splice_scan:
  "\<forall>p off s m. match_at r p off s = Some m \<longrightarrow> m_text m \<noteq> [] \<Longrightarrow>
   drop off full = s \<Longrightarrow> pos \<le> off \<Longrightarrow>
   splice repl pos full (scan r p off s) = take (off - pos) (drop pos full) @ erase r repl p s"
proof (induction r p off s arbitrary: pos rule: scan.induct)
  case (1 r p off)
  from "1.prems"(1) have ne: "\<And>p off s m. match_at r p off s = Some m \<Longrightarrow> m_text m \<noteq> []"
    by blast
  have "match_at r p off [] = None"
  proof (cases "match_at r p off []")
    case (Some m)
    from ne [OF Some] have "m_text m \<noteq> []" .
    moreover from Some have "m_text m = []" by (auto simp: match_at_def split: list.splits)
    ultimately show ?thesis by simp
  qed simp
  moreover from "1.prems"(2) have "length full \<le> off" by simp
  ultimately show ?case by simp
next
  case (2 r p off c cs)
  from "2.prems"(1) have ne: "\<And>p off s m. match_at r p off s = Some m \<Longrightarrow> m_text m \<noteq> []"
    by blast
  from "2.prems"(2) have len: "off < length full" and nth: "full ! off = c"
    and dS: "drop (Suc off) full = cs"
    by (metis drop_all list.distinct(1) not_le, metis nth_via_drop, metis drop_Suc list.sel(3) tl_drop)
  show ?case
  proof (cases "match_at r p off (c # cs)")
    case None
    then have n0: "match_at r p 0 (c # cs) = None" using match_at_None_off by blast
    have ih: "splice repl pos full (scan r (Some c) (Suc off) cs)
        = take (Suc off - pos) (drop pos full) @ erase r repl (Some c) cs"
      using "2.IH"(1) [OF None "2.prems"(1) dS, of pos] "2.prems"(3) by simp
    have "take (Suc off - pos) (drop pos full) = take (off - pos) (drop pos full) @ [c]"
    proof -
      have "Suc off - pos = Suc (off - pos)" using "2.prems"(3) by simp
      moreover have "off - pos < length (drop pos full)" using len "2.prems"(3) by simp
      moreover have "drop pos full ! (off - pos) = c" using nth "2.prems"(3) len by simp
      ultimately show ?thesis by (simp add: take_Suc_conv_app_nth)
    qed
    with ih None n0 show ?thesis by simp
  next
    case (Some m)
    from match_at_Some_off [OF Some] obtain m0 where
      m0: "match_at r p 0 (c # cs) = Some m0" "m_text m0 = m_text m"
      and st: "m_start m = off" and en: "m_end m = off + length (m_text m)" by blast
    from ne [OF Some] have k: "max 1 (length (m_text m)) = length (m_text m)"
      by (cases "m_text m") auto
    let ?k = "length (m_text m)"
    have d: "drop (off + ?k) full = drop (?k - 1) cs"
    proof -
      have "drop (off + ?k) full = drop ?k (drop off full)" by (simp add: add.commute)
      also have "\<dots> = drop ?k (c # cs)" using "2.prems"(2) by simp
      also have "\<dots> = drop (?k - 1) cs" using ne [OF Some] by (cases "m_text m") auto
      finally show ?thesis .
    qed
    have ih: "splice repl (off + ?k) full
          (scan r (Some ((c # cs) ! (?k - 1))) (off + ?k) (drop (?k - 1) cs))
        = erase r repl (Some ((c # cs) ! (?k - 1))) (drop (?k - 1) cs)"
      using "2.IH"(2) [OF Some "2.prems"(1), of "off + ?k"] d k by simp
    show ?thesis using Some m0 st en ih k by simp
  qed
qed

lemma sub_re_erase:
  assumes "\<And>p off s m. match_at r p off s = Some m \<Longrightarrow> m_text m \<noteq> []"
  shows "sub_re r repl s = erase r repl None s"
  using splice_scan [of r 0 s s 0 repl None] assms by (simp add: sub_re_def finditer_def)

lemma word_at_Nil: "good_words W \<Longrightarrow> \<not> word_at W p []"
  by (auto simp: word_at_def good_words_def)

lemma soft_nonempty:
  assumes "soft_pattern P W" and "match_at P p off s = Some m"
  shows "m_text m \<noteq> []"
  using assms by (auto simp: soft_pattern_def good_words_def)

lemma scan_empty_has_word:
  assumes sp: "soft_pattern P W"
  shows "(scan P p off s = []) = (\<not> has_word W p s)"
proof (induction s arbitrary: p off)
  case Nil
  from sp have "match_at P p off [] = None"
    by (simp add: soft_pattern_def word_at_Nil)
  then show ?case by simp
next
  case (Cons c cs)
  from sp have n: "(match_at P p off (c # cs) = None) = (\<not> word_at W p (c # cs))"
    by (simp add: soft_pattern_def)
  show ?case
  proof (cases "match_at P p off (c # cs)")
    case None
    with n Cons [of "Some c" "Suc off"] show ?thesis by simp
  next
    case (Some m)
    with n show ?thesis by simp
  qed
qed

lemma search_has_word:
  assumes "soft_pattern P W"
  shows "(search_re P s = None) = (\<not> has_word W None s)"
  using scan_empty_has_word [OF assms, of None 0 s]
  by (cases "scan P None 0 s") (auto simp: search_re_def finditer_def)

section \<open>Substitution erases the words and makes no new one\<close>

lemma good_no_blank: "good_words V \<Longrightarrow> v \<in> set V \<Longrightarrow> CHR '' '' \<notin> set v"
proof
  assume g: "good_words V" and v: "v \<in> set V" and b: "CHR '' '' \<in> set v"
  from good_word_facts(4) [OF g v] b have "\<not> is_space CHR '' ''" by blast
  then show False by simp
qed

lemma erase_copies_prefix:
  assumes sp: "soft_pattern P W"
  shows "v \<noteq> [] \<Longrightarrow> CHR '' '' \<notin> set v \<Longrightarrow> take (length v) (erase P '' '' p s) = v \<Longrightarrow>
         take (length v) s = v
         \<and> drop (length v) (erase P '' '' p s) = erase P '' '' (Some (last v)) (drop (length v) s)"
proof (induction v arbitrary: p s)
  case Nil
  then show ?case by simp
next
  case (Cons x v')
  show ?case
  proof (cases s)
    case Nil
    with Cons.prems(3) show ?thesis by simp
  next
    case (Cons c cs)
    show ?thesis
    proof (cases "match_at P p 0 (c # cs)")
      case (Some m)
      with Cons.prems(3) \<open>s = c # cs\<close> have "x = CHR '' ''" by simp
      with Cons.prems(2) show ?thesis by simp
    next
      case None
      with Cons.prems(3) \<open>s = c # cs\<close> have x: "c = x"
        and t: "take (length v') (erase P '' '' (Some c) cs) = v'" by auto
      show ?thesis
      proof (cases "v' = []")
        case True
        with None x \<open>s = c # cs\<close> show ?thesis by simp
      next
        case False
        from Cons.prems(2) have "CHR '' '' \<notin> set v'" by simp
        from Cons.IH [OF False this t] None x \<open>s = c # cs\<close> False show ?thesis by simp
      qed
    qed
  qed
qed

lemma word_at_through_erase:
  assumes sp: "soft_pattern P W" and gv: "good_words V"
    and w: "word_at V p' (erase P '' '' p s)"
    and inv: "word_opt p' = word_opt p \<or> \<not> word_opt (next_char s)"
  shows "word_at V p s"
proof -
  from w obtain v where np: "\<not> word_opt p'" and v: "v \<in> set V"
    and tk: "take (length v) (erase P '' '' p s) = v"
    and nx: "\<not> word_opt (next_char (drop (length v) (erase P '' '' p s)))"
    by (auto simp: word_at_def)
  from good_word_facts [OF gv v] have vne: "v \<noteq> []" and lv: "word_opt (Some (last v))"
    and hv: "\<And>s. take (length v) s = v \<Longrightarrow> word_opt (next_char s)" by blast+
  from erase_copies_prefix [OF sp vne good_no_blank [OF gv v] tk]
  have ts: "take (length v) s = v"
    and dr: "drop (length v) (erase P '' '' p s) = erase P '' '' (Some (last v)) (drop (length v) s)"
    by simp_all
  from hv [OF ts] inv np have p: "\<not> word_opt p" by auto
  have "\<not> word_opt (next_char (drop (length v) s))"
  proof (cases "drop (length v) s")
    case Nil
    then show ?thesis by (simp add: next_char_def word_opt_def)
  next
    case (Cons d ds)
    from sp lv have "match_at P (Some (last v)) 0 (d # ds) = None"
      by (simp add: soft_pattern_def word_at_def)
    with nx dr Cons show ?thesis by (simp add: next_char_def)
  qed
  with p v ts show ?thesis by (auto simp: word_at_def)
qed

lemma word_at_blank: "good_words V \<Longrightarrow> \<not> word_at V p (CHR '' '' # s)"
proof
  assume g: "good_words V" and "word_at V p (CHR '' '' # s)"
  then obtain v where v: "v \<in> set V" and t: "take (length v) (CHR '' '' # s) = v"
    by (auto simp: word_at_def)
  from good_word_facts(1) [OF g v] t have "hd v = CHR '' ''" by (cases v) auto
  with good_word_facts(1) [OF g v] good_no_blank [OF g v] show False
    by (cases v) auto
qed

lemma has_word_later:
  "has_word V (Some (s ! n)) (drop (Suc n) s) \<Longrightarrow> has_word V p s"
proof (induction n arbitrary: p s)
  case 0
  then show ?case by (cases s) auto
next
  case (Suc n)
  show ?case
  proof (cases s)
    case Nil
    with Suc.prems show ?thesis by simp
  next
    case (Cons c cs)
    with Suc.prems have "has_word V (Some (cs ! n)) (drop (Suc n) cs)" by simp
    from Suc.IH [OF this, of "Some c"] Cons show ?thesis by simp
  qed
qed

lemma erased_no_word:
  "soft_pattern P W \<Longrightarrow> word_opt p' = word_opt p \<or> \<not> word_opt (next_char s) \<Longrightarrow>
   \<not> has_word W p' (erase P '' '' p s)"
proof (induction P "'' ''" p s arbitrary: p' rule: erase.induct)
  case (1 r p)
  then show ?case by simp
next
  case (2 r p c cs)
  note sp = "2.prems"(1)
  from sp have gw: "good_words W" by (simp add: soft_pattern_def)
  show ?case
  proof (cases "match_at r p 0 (c # cs)")
    case None
    from sp None have nw: "\<not> word_at W p (c # cs)" by (simp add: soft_pattern_def)
    have "\<not> word_at W p' (c # erase r '' '' (Some c) cs)"
    proof
      assume "word_at W p' (c # erase r '' '' (Some c) cs)"
      then have "word_at W p' (erase r '' '' p (c # cs))" using None by simp
      from word_at_through_erase [OF sp gw this "2.prems"(2)] nw show False by simp
    qed
    moreover have "\<not> has_word W (Some c) (erase r '' '' (Some c) cs)"
      using "2.hyps"(1) [OF None sp, of "Some c"] by simp
    ultimately show ?thesis using None by simp
  next
    case (Some m)
    let ?k = "max 1 (length (m_text m)) - 1"
    from sp Some have mt: "m_text m \<in> set W"
      and nx: "\<not> word_opt (next_char (drop (length (m_text m)) (c # cs)))"
      by (auto simp: soft_pattern_def)
    from good_word_facts(1) [OF gw mt] have "drop (length (m_text m)) (c # cs) = drop ?k cs"
      by (cases "m_text m") auto
    with nx have "\<not> word_opt (next_char (drop ?k cs))" by simp
    then have "\<not> has_word W (Some CHR '' '') (erase r '' '' (Some ((c # cs) ! ?k)) (drop ?k cs))"
      using "2.hyps"(2) [OF Some sp, of "Some CHR '' ''"] by simp
    with word_at_blank [OF gw] Some show ?thesis by simp
  qed
qed

lemma erase_keeps_absence:
  "soft_pattern P W \<Longrightarrow> good_words V \<Longrightarrow>
   word_opt p' = word_opt p \<or> \<not> word_opt (next_char s) \<Longrightarrow>
   has_word V p' (erase P '' '' p s) \<Longrightarrow> has_word V p s"
proof (induction P "'' ''" p s arbitrary: p' rule: erase.induct)
  case (1 r p)
  then show ?case by simp
next
  case (2 r p c cs)
  note sp = "2.prems"(1) and gv = "2.prems"(2)
  from sp have gw: "good_words W" by (simp add: soft_pattern_def)
  show ?case
  proof (cases "match_at r p 0 (c # cs)")
    case None
    with "2.prems"(4) have
      "word_at V p' (erase r '' '' p (c # cs)) \<or> has_word V (Some c) (erase r '' '' (Some c) cs)"
      by simp
    then show ?thesis
    proof
      assume "word_at V p' (erase r '' '' p (c # cs))"
      from word_at_through_erase [OF sp gv this "2.prems"(3)] show ?thesis by simp
    next
      assume "has_word V (Some c) (erase r '' '' (Some c) cs)"
      from "2.hyps"(1) [OF None sp gv _ this] show ?thesis by simp
    qed
  next
    case (Some m)
    let ?k = "max 1 (length (m_text m)) - 1"
    from sp Some have mt: "m_text m \<in> set W"
      and nx: "\<not> word_opt (next_char (drop (length (m_text m)) (c # cs)))"
      by (auto simp: soft_pattern_def)
    from good_word_facts(1) [OF gw mt] have "drop (length (m_text m)) (c # cs) = drop ?k cs"
      by (cases "m_text m") auto
    with nx have n: "\<not> word_opt (next_char (drop ?k cs))" by simp
    from "2.prems"(4) Some word_at_blank [OF gv]
    have "has_word V (Some CHR '' '') (erase r '' '' (Some ((c # cs) ! ?k)) (drop ?k cs))"
      by simp
    from "2.hyps"(2) [OF Some sp gv _ this] n
    have "has_word V (Some ((c # cs) ! ?k)) (drop ?k cs)" by simp
    then have "has_word V (Some ((c # cs) ! ?k)) (drop (Suc ?k) (c # cs))"
      by (simp only: drop_Suc_Cons)
    then show ?thesis by (rule has_word_later)
  qed
qed

lemma sub_erases_words:
  assumes "soft_pattern P W"
  shows "search_re P (sub_re P '' '' s) = None"
proof -
  have "sub_re P '' '' s = erase P '' '' None s"
    using soft_nonempty [OF assms] by (intro sub_re_erase) blast
  with erased_no_word [OF assms, of None None s] show ?thesis
    by (simp add: search_has_word [OF assms])
qed

lemma sub_keeps_absence:
  assumes "soft_pattern P W" and "soft_pattern Q V" and "search_re Q s = None"
  shows "search_re Q (sub_re P '' '' s) = None"
proof -
  have e: "sub_re P '' '' s = erase P '' '' None s"
    using soft_nonempty [OF assms(1)] by (intro sub_re_erase) blast
  from assms(2) have gv: "good_words V" by (simp add: soft_pattern_def)
  from assms(3) have "\<not> has_word V None s" by (simp add: search_has_word [OF assms(2)])
  with erase_keeps_absence [OF assms(1) gv, of None None s]
  have "\<not> has_word V None (erase P '' '' None s)" by blast
  with e show ?thesis by (simp add: search_has_word [OF assms(2)])
qed

section \<open>Squishing makes no new word\<close>

lemma space_not_word: "is_space c \<Longrightarrow> \<not> is_word c"
  by (auto simp: is_space_def is_word_def Let_def)

lemma brk_next: "brk y \<Longrightarrow> \<not> word_opt (next_char y)"
  by (cases y) (auto simp: brk_def next_char_def word_opt_def space_not_word)

lemma word_at_space: "good_words V \<Longrightarrow> brk y \<Longrightarrow> \<not> word_at V p y"
proof
  assume g: "good_words V" and b: "brk y" and "word_at V p y"
  then obtain v where v: "v \<in> set V" and t: "take (length v) y = v"
    by (auto simp: word_at_def)
  from good_word_facts(1) [OF g v] obtain a v' where vv: "v = a # v'" by (cases v) auto
  with t obtain y' where y: "y = a # y'" by (cases y) auto
  with b have "is_space a" by (simp add: brk_def)
  with good_word_facts(4) [OF g v] vv show False by simp
qed

lemma has_word_brk: "good_words V \<Longrightarrow> brk y \<Longrightarrow> has_word V p y = has_word V q y"
  using word_at_space [of V y] by (cases y) auto

lemma has_word_prev: "word_opt p = word_opt q \<Longrightarrow> has_word V p z = has_word V q z"
  by (cases z) (auto simp: word_at_def)

lemma word_at_swap_tail:
  assumes g: "good_words V" and y: "brk y" and y': "brk y'" and pq: "word_opt p = word_opt q"
    and w: "word_at V p (x @ y)"
  shows "word_at V q (x @ y')"
proof -
  from w obtain v where np: "\<not> word_opt p" and v: "v \<in> set V"
    and tk: "take (length v) (x @ y) = v"
    and nx: "\<not> word_opt (next_char (drop (length v) (x @ y)))"
    by (auto simp: word_at_def)
  have le: "length v \<le> length x"
  proof (rule ccontr)
    assume "\<not> length v \<le> length x"
    then have gt: "length x < length v" by simp
    have "length (take (length v) (x @ y)) \<le> length (x @ y)" by simp
    with tk have "length v \<le> length (x @ y)" by simp
    with gt have yne: "y \<noteq> []" by auto
    have "v ! length x = (x @ y) ! length x" using tk gt by (metis nth_take)
    also have "\<dots> = hd y" using yne by (simp add: nth_append hd_conv_nth)
    finally have "v ! length x = hd y" .
    moreover have "v ! length x \<in> set v" using gt by simp
    ultimately have "hd y \<in> set v" by simp
    with good_word_facts(4) [OF g v] y yne show False by (auto simp: brk_def)
  qed
  then have t': "take (length v) (x @ y') = v" using tk by simp
  have "\<not> word_opt (next_char (drop (length v) (x @ y')))"
  proof (cases "length v = length x")
    case True
    then show ?thesis using brk_next [OF y'] by simp
  next
    case False
    with le have lt: "length v < length x" by simp
    then obtain d ds where "drop (length v) x = d # ds"
      by (cases "drop (length v) x") auto
    with nx le show ?thesis by (simp add: next_char_def)
  qed
  with np pq v t' show ?thesis by (auto simp: word_at_def)
qed

lemma has_word_swap_tail:
  assumes g: "good_words V" and y: "brk y" and y': "brk y'"
  shows "word_opt p = word_opt q \<Longrightarrow> has_word V p (x @ y) \<Longrightarrow>
         has_word V q (x @ y') \<or> has_word V None y"
proof (induction x arbitrary: p q)
  case Nil
  then show ?case using has_word_brk [OF g y, of p None] by simp
next
  case (Cons c x)
  from Cons.prems(2) have "word_at V p ((c # x) @ y) \<or> has_word V (Some c) (x @ y)" by simp
  then show ?case
  proof
    assume "word_at V p ((c # x) @ y)"
    from word_at_swap_tail [OF g y y' Cons.prems(1) this] show ?thesis by simp
  next
    assume "has_word V (Some c) (x @ y)"
    from Cons.IH [OF _ this, of "Some c"] show ?thesis by auto
  qed
qed

lemma has_word_suffix: "good_words V \<Longrightarrow> brk y \<Longrightarrow> has_word V r y \<Longrightarrow> has_word V p (x @ y)"
proof (induction x arbitrary: p)
  case Nil
  then show ?case using has_word_brk [of V y r p] by simp
next
  case (Cons c x)
  then show ?case by simp
qed

lemma has_word_after_spaces:
  "\<forall>c\<in>set sp. is_space c \<Longrightarrow> \<not> word_opt q \<Longrightarrow> \<not> word_opt p \<Longrightarrow>
   has_word V q z \<Longrightarrow> has_word V p (sp @ z)"
proof (induction sp arbitrary: p)
  case Nil
  then show ?case using has_word_prev [of q p V z] by simp
next
  case (Cons s sp)
  have "\<not> word_opt (Some s)" using Cons.prems(1) by (simp add: word_opt_def space_not_word)
  from Cons.IH [OF _ Cons.prems(2) this Cons.prems(4)] Cons.prems(1) show ?case by simp
qed

lemma squish_keeps_absence:
  assumes g: "good_words V"
  shows "\<not> word_opt p' \<Longrightarrow> \<not> word_opt p \<Longrightarrow> has_word V p' (join '' '' (split t)) \<Longrightarrow>
         has_word V p t"
proof (induction t arbitrary: p p' rule: split.induct)
  case (1 t)
  show ?case
  proof (cases "dropWhile is_space t")
    case Nil
    then have "\<forall>c\<in>set t. is_space c" by (simp add: dropWhile_eq_Nil_conv)
    then have "split t = []" by (rule split_all_space)
    with "1.prems"(3) show ?thesis by simp
  next
    case (Cons c cs)
    let ?sp = "takeWhile is_space t"
    let ?tok = "c # takeWhile nsp cs"
    let ?rest = "dropWhile nsp cs"
    let ?J = "join '' '' (split ?rest)"
    let ?y = "if split ?rest = [] then [] else CHR '' '' # ?J"
    have t: "t = ?sp @ ?tok @ ?rest"
    proof -
      have "t = ?sp @ dropWhile is_space t" by simp
      also have "dropWhile is_space t = c # (takeWhile nsp cs @ dropWhile nsp cs)"
        using Cons by simp
      finally show ?thesis by simp
    qed
    have sp: "\<forall>x\<in>set ?sp. is_space x" by (auto dest: set_takeWhileD)
    have spl: "split t = ?tok # split ?rest" using Cons by (simp add: split.simps [of t])
    have out: "join '' '' (split t) = ?tok @ ?y"
      unfolding spl by (cases "split ?rest") simp_all
    have yb: "brk ?y" by (simp add: brk_def)
    have br: "brk ?rest"
    proof (cases ?rest)
      case Nil
      then show ?thesis by (simp add: brk_def)
    next
      case (Cons d ds)
      then have "\<not> nsp d" by (simp add: dropWhile_eq_Cons_conv)
      with Cons show ?thesis by (simp add: brk_def)
    qed
    from "1.prems"(3) out have "has_word V p' (?tok @ ?y)" by simp
    from has_word_swap_tail [OF g yb br _ this, of p']
    have "has_word V p' (?tok @ ?rest) \<or> has_word V None ?y" by simp
    then show ?thesis
    proof
      assume "has_word V p' (?tok @ ?rest)"
      from has_word_after_spaces [OF sp "1.prems"(1) "1.prems"(2) this] t show ?thesis by simp
    next
      assume a: "has_word V None ?y"
      then have ne: "split ?rest \<noteq> []" by (auto split: if_splits)
      with a word_at_space [OF g, of "CHR '' '' # ?J"] have "has_word V (Some CHR '' '') ?J"
        by (simp add: brk_def)
      from "1.IH" [OF Cons _ _ this, of None] have "has_word V None ?rest"
        by (simp add: word_opt_def space_not_word)
      from has_word_suffix [OF g br this, of p "?sp @ ?tok"] t show ?thesis by simp
    qed
  qed
qed

lemma squish_no_word:
  assumes "good_words V" and "\<not> has_word V None t"
  shows "\<not> has_word V None (join '' '' (split t))"
  using squish_keeps_absence [OF assms(1), of None None t] assms(2)
  by (auto simp: word_opt_def)

lemma padded_squish_no_word:
  assumes g: "good_words V" and n: "\<not> has_word V None t"
  shows "\<not> has_word V None ('' '' @ join '' '' (split t) @ '' '')"
proof
  let ?c = "join '' '' (split t)"
  assume "has_word V None ('' '' @ ?c @ '' '')"
  with word_at_space [OF g, of "'' '' @ ?c @ '' ''"] have "has_word V (Some CHR '' '') (?c @ '' '')"
    by (simp add: brk_def)
  from has_word_swap_tail [OF g _ _ _ this, of "[]" "Some CHR '' ''"]
  have "has_word V (Some CHR '' '') ?c \<or> has_word V None '' ''"
    by (simp add: brk_def)
  moreover have "\<not> has_word V None '' ''" using word_at_space [OF g, of "'' ''"]
    by (simp add: brk_def)
  ultimately have "has_word V (Some CHR '' '') ?c" by simp
  from squish_keeps_absence [OF g _ _ this, of None] n show False
    by (simp add: word_opt_def space_not_word)
qed

lemma strip_id: "x \<noteq> [] \<Longrightarrow> \<not> is_space (hd x) \<Longrightarrow> \<not> is_space (last x) \<Longrightarrow> strip x = x"
proof -
  assume x: "x \<noteq> []" and h: "\<not> is_space (hd x)" and l: "\<not> is_space (last x)"
  from x h have 1: "dropWhile is_space x = x" by (cases x) auto
  from x l have "dropWhile is_space (rev x) = rev x"
    by (cases "rev x") (auto simp: hd_rev [symmetric])
  with 1 show ?thesis by (simp add: strip_def)
qed

lemma join_ends:
  "ws \<noteq> [] \<Longrightarrow> \<forall>w\<in>set ws. w \<noteq> [] \<Longrightarrow>
   join '' '' ws \<noteq> [] \<and> hd (join '' '' ws) = hd (hd ws) \<and> last (join '' '' ws) = last (last ws)"
  by (induction "'' ''" ws rule: join.induct) auto

lemma strip_squish: "strip (join '' '' (split t)) = join '' '' (split t)"
proof (cases "split t = []")
  case True
  then show ?thesis by (simp add: strip_def)
next
  case False
  have tok: "\<forall>w\<in>set (split t). w \<noteq> [] \<and> (\<forall>c\<in>set w. \<not> is_space c)"
    using split_tokens by blast
  then have ne: "\<forall>w\<in>set (split t). w \<noteq> []" by blast
  from join_ends [OF False ne] have j: "join '' '' (split t) \<noteq> []"
    "hd (join '' '' (split t)) = hd (hd (split t))"
    "last (join '' '' (split t)) = last (last (split t))" by simp_all
  have "hd (split t) \<in> set (split t)" "last (split t) \<in> set (split t)" using False by simp_all
  with tok have "\<not> is_space (hd (hd (split t)))" "\<not> is_space (last (last (split t)))"
    by (metis hd_in_set, metis last_in_set)
  with j show ?thesis by (intro strip_id) simp_all
qed

section \<open>The text after the soft heuristics\<close>

lemma sub_re_none: "search_re r s = None \<Longrightarrow> sub_re r repl s = s"
  by (simp add: search_re_def sub_re_def split: list.splits)

lemma cheap_step_text: "s_text (cheap_step st) = sub_re cheap_pattern '' '' (s_text st)"
  by (simp add: cheap_step_def sub_re_none split: option.splits)

lemma expensive_step_text: "s_text (expensive_step st) = sub_re expensive_pattern '' '' (s_text st)"
  by (simp add: expensive_step_def sub_re_none split: option.splits)

lemma soft_steps_erase:
  "search_re cheap_pattern (s_text (expensive_step (cheap_step st))) = None
   \<and> search_re expensive_pattern (s_text (expensive_step (cheap_step st))) = None"
proof -
  have c: "search_re cheap_pattern (s_text (cheap_step st)) = None"
    unfolding cheap_step_text using soft_cheap by (rule sub_erases_words)
  have "search_re cheap_pattern (s_text (expensive_step (cheap_step st))) = None"
    unfolding expensive_step_text using soft_expensive soft_cheap c by (rule sub_keeps_absence)
  moreover have "search_re expensive_pattern (s_text (expensive_step (cheap_step st))) = None"
    unfolding expensive_step_text using soft_expensive by (rule sub_erases_words)
  ultimately show ?thesis by simp
qed

lemma squish_soft_free:
  assumes s: "soft_pattern P W" and n: "search_re P t = None"
  shows "search_re P (join '' '' (split t)) = None"
    and "search_re P ('' '' @ join '' '' (split t) @ '' '') = None"
proof -
  from s have g: "good_words W" by (simp add: soft_pattern_def)
  from n have h: "\<not> has_word W None t" by (simp add: search_has_word [OF s])
  from squish_no_word [OF g h] show "search_re P (join '' '' (split t)) = None"
    by (simp add: search_has_word [OF s])
  from padded_squish_no_word [OF g h]
  show "search_re P ('' '' @ join '' '' (split t) @ '' '') = None"
    by (simp only: search_has_word [OF s] simp_thms)
qed

lemma initial_squish:
  assumes "lowered t"
  shows "s_text (initial (join '' '' (split t))) = '' '' @ join '' '' (split t) @ '' ''"
proof -
  from assms have "lowered (join '' '' (split t))" by (rule squish_lowered)
  then have "lower (join '' '' (split t)) = join '' '' (split t)" by (rule lower_lowered)
  then show ?thesis by (simp only: initial_def pstate.select_convs strip_squish)
qed

section \<open>Evaluations of the extractor\<close>





lemma eval_under_10:
  "extract_price_filters ''under 10'' = Inr (''under 10'', None, Some 10)"
  by code_simp

lemma eval_over_under:
  "extract_price_filters ''over 20 under 10'' = Inr (''over 20 under 10'', Some 20, Some 10)"
  by code_simp

lemma eval_empty:
  "extract_price_filters [] = Inr ([], None, None)"
  by code_simp

lemma eval_red_towels:
  "extract_price_filters ''Red Towels'' = Inr (''red towels'', None, None)"
  by code_simp

lemma eval_cheap_over:
  "extract_price_filters ''cheap, but over 5'' = Inr ('', but'', Some 5, Some 15)"
  by code_simp

lemma eval_premium:
  "extract_price_filters ''premium detergent'' = Inr (''detergent'', Some 100, None)"
  by code_simp

lemma eval_under_under:
  "extract_price_filters ''under 50 under 10'' = Inr (''under 50 under 10'', None, Some 10)"
  by code_simp

lemma eval_over_over:
  "extract_price_filters ''over 5 over 20'' = Inr (''over 5 over 20'', Some 20, None)"
  by code_simp

lemma eval_between_15_5:
  "extract_price_filters ''between 15 and 5'' = Inr (''between 15 and 5'', Some 5, Some 15)"
  by code_simp

lemma eval_between_5_15:
  "extract_price_filters ''between 5 and 15'' = Inr (''between 5 and 15'', Some 5, Some 15)"
  by code_simp

lemma eval_squish_makes_phrase:
  "extract_price_filters ''a 5 - over 1 2'' = Inr (''a 5 - 2'', Some 1, None)"
  by code_simp

lemma eval_squished_again:
  "extract_price_filters ''a 5 - 2'' = Inr (''a'', Some 2, Some 5)"
  by code_simp

lemma eval_tv_500_1500:
  "extract_price_filters ''tv between 500 and 1500'' = Inr (''tv 0'', Some 150, Some 500)"
  by code_simp

lemma eval_tv_1500_500:
  "extract_price_filters ''tv between 1500 and 500'' = Inr (''tv'', Some 500, Some 1500)"
  by code_simp

lemma eval_under_5000_6000:
  "extract_price_filters ''under 5000 under 6000'' = Inr (''0 0'', None, Some 500)"
  by code_simp



lemma eval_cheap:
  "extract_price_filters ''cheap'' = Inr (''cheap'', None, Some 15)"
  by code_simp

lemma eval_cheap_towels_under:
  "extract_price_filters ''cheap towels under 10 dollars'' = Inr (''towels'', None, Some 10)"
  by code_simp

lemma eval_towels:
  "extract_price_filters ''towels'' = Inr (''towels'', None, None)"
  by code_simp

section \<open>Claims\<close>

text \<open>
  C10. The bound-phrase patterns have no word-boundary anchor: in \<open>recover 20 files\<close>
  the keyword \<open>over\<close> occurs only inside \<open>recover\<close>, yet the extractor sets the lower
  bound 20 and cuts the matched characters out of the word, leaving \<open>rec files\<close>.
\<close>

theorem keyword_inside_word:
  "extract_price_filters ''recover 20 files'' = Inr (''rec files'', Some 20, None)"
  by code_simp

text \<open>
  C9. The limit of the call to the vector store is \<open>max(top_k, 12)\<close>: 12 when
  \<open>top_k \<le> 12\<close> and \<open>top_k\<close> otherwise. The call is always made (the extractor raises
  nothing), this limit is the one it carries, and \<open>top_k\<close> is only used afterwards, to
  cut the list that the store returns.
\<close>

theorem candidate_pool_size:
  "\<exists>call. search_request embedder q top_k thr category = Inr call
      \<and> limit call = max top_k 12
      \<and> limit call = (if top_k \<le> 12 then 12 else top_k)
      \<and> search embedder store q top_k thr category
            = Inr (map fst (slice_to (store call) top_k))"
proof -
  obtain c mn mx where "extract_price_filters q = Inr (c, mn, mx)"
    using extract_total by blast
  then show ?thesis by (auto simp: search_request_def search_def)
qed

text \<open>
  C8. The two captured numbers are sorted (\<open>interval_step_sorted\<close> above), and
  \<open>between 15 and 5\<close> and \<open>between 5 and 15\<close> do both give min = 5, max = 15. But the
  result still depends on the order of the numbers in the text, because a number that
  ends the phrase is not captured whole: the first alternative of \<open>_NUM\<close>,
  \<open>\d{1,3}(?:,\d{3})*\<close>, succeeds on the first three digits and nothing that follows
  has to match. In \<open>tv between 500 and 1500\<close> the second number is read as 150, giving
  min = 150 and max = 500 and leaving a stray \<open>0\<close> in the text; with the numbers
  swapped, both are read whole and the range is 500 to 1500.
\<close>

theorem interval_order_dependent:
  "extract_price_filters ''tv between 500 and 1500'' = Inr (''tv 0'', Some 150, Some 500)
   \<and> extract_price_filters ''tv between 1500 and 500'' = Inr (''tv'', Some 500, Some 1500)
   \<and> extract_price_filters ''between 15 and 5'' = Inr (''between 15 and 5'', Some 5, Some 15)
   \<and> extract_price_filters ''between 5 and 15'' = Inr (''between 5 and 15'', Some 5, Some 15)"
  using eval_tv_500_1500 eval_tv_1500_500 eval_between_15_5 eval_between_5_15 by simp

text \<open>
  C7. The loops fold the captured values with \<open>min\<close> and \<open>max\<close> (\<open>two_matches_tighten\<close>
  above), and \<open>under 50 under 10\<close> gives max = 10 and \<open>over 5 over 20\<close> gives min = 20.
  But the value of a phrase is not always the number written in it: in
  \<open>under 5000 under 6000\<close> the numbers are captured as 500 and 600 (the first
  alternative of \<open>_NUM\<close> succeeds on three digits and the rest of the pattern is
  optional), so the upper bound is 500, not 5000, and the cut-off digits stay in the
  text.
\<close>

theorem bound_values_cut_short:
  "extract_price_filters ''under 5000 under 6000'' = Inr (''0 0'', None, Some 500)
   \<and> extract_price_filters ''under 50 under 10'' = Inr (''under 50 under 10'', None, Some 10)
   \<and> extract_price_filters ''over 5 over 20'' = Inr (''over 5 over 20'', Some 20, None)"
  using eval_under_5000_6000 eval_under_under eval_over_over by simp




text \<open>
  C1, as stated, fails: the range is returned as the passes left it, with no
  normalization. In \<open>over 20 under 10\<close> the lower-bound pass sets 20 and the
  upper-bound pass sets 10, and the result has min = 20 above max = 10.
\<close>

theorem unsorted_final_range:
  "extract_price_filters ''over 20 under 10'' = Inr (''over 20 under 10'', Some 20, Some 10)
   \<and> \<not> (20 :: rat) \<le> 10"
  using eval_over_under by simp

text \<open>
  C1, amended. What the code keeps is this: the two numbers of an interval match are
  sorted, so an interval folded into an unconstrained range gives a lower bound that
  is at most the upper bound; and every update only tightens: through an interval
  match, through the four numeric passes and through the soft heuristics a bound
  that is present stays present, a lower bound never decreases and an upper bound
  never increases.
\<close>

theorem bounds_sorted_then_tightened:
  "(interval_step st m = Inr st1 \<longrightarrow>
      tighter st st1
      \<and> (min_price st = None \<and> max_price st = None \<longrightarrow>
           (\<exists>lo hi. min_price st1 = Some lo \<and> max_price st1 = Some hi \<and> lo \<le> hi)))
   \<and> (numeric_passes st = Inr st2 \<longrightarrow> tighter st (expensive_step (cheap_step st2)))"
proof (intro conjI impI)
  assume "interval_step st m = Inr st1"
  then show "tighter st st1" by (rule interval_step_tighter)
next
  assume a: "interval_step st m = Inr st1" and n: "min_price st = None \<and> max_price st = None"
  then show "\<exists>lo hi. min_price st1 = Some lo \<and> max_price st1 = Some hi \<and> lo \<le> hi"
    by (auto simp: interval_step_def tighten_min_def tighten_max_def split: sum.splits)
next
  assume "numeric_passes st = Inr st2"
  then have "tighter st st2" by (rule numeric_passes_tighter)
  then show "tighter st (expensive_step (cheap_step st2))"
    using soft_steps_tighter [of st2] by (rule tighter_trans)
qed

theorem bounds_sorted_then_tightened_witness:
  "interval_step \<lparr>s_text = '' between 15 and 5 '', min_price = None, max_price = None\<rparr>
      \<lparr>m_start = 1, m_end = 17, m_text = ''between 15 and 5'',
        m_groups = [(2, ''5''), (1, ''15'')]\<rparr>
     = Inr \<lparr>s_text = ''   '', min_price = Some 5, max_price = Some 15\<rparr>
   \<and> numeric_passes \<lparr>s_text = '' between 15 and 5 '', min_price = None, max_price = None\<rparr>
     = Inr \<lparr>s_text = ''   '', min_price = Some 5, max_price = Some 15\<rparr>
   \<and> tighter \<lparr>s_text = '' between 15 and 5 '', min_price = None, max_price = None\<rparr>
       \<lparr>s_text = ''   '', min_price = Some 5, max_price = Some 15\<rparr>
   \<and> tighter \<lparr>s_text = '' between 15 and 5 '', min_price = None, max_price = None\<rparr>
       (expensive_step (cheap_step \<lparr>s_text = ''   '', min_price = Some 5, max_price = Some 15\<rparr>))"
proof -
  let ?st = "\<lparr>s_text = '' between 15 and 5 '', min_price = None, max_price = None\<rparr>"
  let ?m = "\<lparr>m_start = 1, m_end = 17, m_text = ''between 15 and 5'',
        m_groups = [(2, ''5''), (1, ''15'')]\<rparr>"
  let ?st1 = "\<lparr>s_text = ''   '', min_price = Some 5, max_price = Some 15\<rparr>"
  have h1: "interval_step ?st ?m = Inr ?st1" by code_simp
  have h2: "numeric_passes ?st = Inr ?st1" by code_simp
  show ?thesis
    using h1 h2 bounds_sorted_then_tightened [of ?st ?m ?st1 ?st1] by blast
qed

text \<open>
  C6, as stated, fails: the words are not always erased from the cleaned text. For the
  query \<open>cheap\<close> the upper bound 15 is set and the word is erased from the working
  text, which is then blank, so the raw query \<open>cheap\<close> is returned as the cleaned text.
\<close>

theorem soft_word_kept_by_fallback:
  "extract_price_filters ''cheap'' = Inr (''cheap'', None, Some 15)"
  by (rule eval_cheap)

text \<open>
  C6, amended. With \<open>st\<close> the state after the four numeric passes: the upper bound
  returned is the one of \<open>st\<close>, except that it is 15 when a word of
  \<open>cheap|inexpensive|budget\<close> is found and \<open>st\<close> has no upper bound; the lower bound
  returned is the one of \<open>st\<close>, except that it is 100 when a word of
  \<open>expensive|premium|high-end\<close> is found (after the first substitution) and \<open>st\<close> has
  no lower bound. The cleaned text is the squished text \<open>x\<close> left by the two
  substitutions, in which neither pattern matches any more, unless \<open>x\<close> is empty: then
  it is the raw query. So \<open>cheap, but over 5\<close> gives min = 5 and max = 15, and
  \<open>premium detergent\<close> gives the text \<open>detergent\<close>, min = 100 and no max.
\<close>

theorem soft_heuristics_cleaned_text:
  assumes "numeric_passes (initial q) = Inr st"
  shows "(let x = join '' '' (split (sub_re expensive_pattern '' ''
                                      (sub_re cheap_pattern '' '' (s_text st))))
          in extract_price_filters q = Inr (if x = [] then q else x,
               (if search_re expensive_pattern (sub_re cheap_pattern '' '' (s_text st)) = None
                then min_price st
                else (case min_price st of None \<Rightarrow> Some 100 | Some v \<Rightarrow> Some v)),
               (if search_re cheap_pattern (s_text st) = None then max_price st
                else (case max_price st of None \<Rightarrow> Some 15 | Some v \<Rightarrow> Some v)))
             \<and> search_re cheap_pattern x = None \<and> search_re expensive_pattern x = None)
       \<and> extract_price_filters ''cheap, but over 5'' = Inr ('', but'', Some 5, Some 15)
       \<and> extract_price_filters ''premium detergent'' = Inr (''detergent'', Some 100, None)"
proof -
  let ?sf = "expensive_step (cheap_step st)"
  let ?x = "join '' '' (split (s_text ?sf))"
  have t: "s_text ?sf = sub_re expensive_pattern '' '' (sub_re cheap_pattern '' '' (s_text st))"
    by (simp only: expensive_step_text cheap_step_text)
  have mn: "min_price ?sf
      = (if search_re expensive_pattern (sub_re cheap_pattern '' '' (s_text st)) = None
         then min_price st
         else (case min_price st of None \<Rightarrow> Some 100 | Some v \<Rightarrow> Some v))"
    by (simp only: expensive_step_min cheap_step_min cheap_step_text)
  have mx: "max_price ?sf
      = (if search_re cheap_pattern (s_text st) = None then max_price st
         else (case max_price st of None \<Rightarrow> Some 15 | Some v \<Rightarrow> Some v))"
    by (simp only: expensive_step_max cheap_step_max)
  have e: "extract_price_filters q = Inr (if ?x = [] then q else ?x, min_price ?sf, max_price ?sf)"
    using extract_finish [OF assms] by (simp add: finish_def Let_def)
  have c: "search_re cheap_pattern ?x = None"
    using soft_cheap soft_steps_erase [THEN conjunct1] by (rule squish_soft_free(1))
  have x: "search_re expensive_pattern ?x = None"
    using soft_expensive soft_steps_erase [THEN conjunct2] by (rule squish_soft_free(1))
  from e c x show ?thesis
    unfolding mn mx t Let_def using eval_cheap_over eval_premium by simp
qed

theorem soft_heuristics_cleaned_text_witness:
  "numeric_passes (initial ''cheap premium detergent'')
     = Inr \<lparr>s_text = '' cheap premium detergent '', min_price = None, max_price = None\<rparr>
   \<and> extract_price_filters ''cheap premium detergent'' = Inr (''detergent'', Some 100, Some 15)
   \<and> search_re cheap_pattern ''detergent'' = None
   \<and> search_re expensive_pattern ''detergent'' = None"
proof -
  let ?st = "\<lparr>s_text = '' cheap premium detergent '', min_price = None, max_price = None\<rparr>"
  have h: "numeric_passes (initial ''cheap premium detergent'') = Inr ?st" by code_simp
  have c: "search_re cheap_pattern '' cheap premium detergent '' \<noteq> None" by code_simp
  have e: "search_re expensive_pattern (sub_re cheap_pattern '' '' '' cheap premium detergent '')
             \<noteq> None" by code_simp
  have x: "join '' '' (split (sub_re expensive_pattern '' ''
             (sub_re cheap_pattern '' '' '' cheap premium detergent ''))) = ''detergent''"
    by code_simp
  show ?thesis
    using h c e x soft_heuristics_cleaned_text [OF h] by (simp add: Let_def)
qed

text \<open>
  C4, as stated, fails for the empty query: nothing is matched, the squished text is
  empty, and the fallback is the empty original.
\<close>

theorem empty_query_empty_text:
  "extract_price_filters [] = Inr ([], None, None)"
  by (rule eval_empty)

text \<open>
  C4, amended. For every non-empty query the extractor returns a non-empty cleaned
  text, and when the squished working text is empty the cleaned text is the raw
  query itself; \<open>under 10\<close>, which is all price phrase, comes back as \<open>under 10\<close>.
\<close>

theorem cleaned_text_fallback:
  assumes "q \<noteq> []"
  shows "(\<exists>st c mn mx. numeric_passes (initial q) = Inr st
            \<and> extract_price_filters q = Inr (c, mn, mx) \<and> c \<noteq> []
            \<and> (join '' '' (split (s_text (expensive_step (cheap_step st)))) = [] \<longrightarrow> c = q))
       \<and> extract_price_filters ''under 10'' = Inr (''under 10'', None, Some 10)"
proof -
  obtain st where st: "numeric_passes (initial q) = Inr st"
    using numeric_passes_total by blast
  from extract_finish [OF st] assms eval_under_10 st show ?thesis
    by (auto simp: finish_def Let_def)
qed

theorem cleaned_text_fallback_witness:
  "''under 10'' \<noteq> [] \<and> (\<exists>c mn mx. extract_price_filters ''under 10'' = Inr (c, mn, mx) \<and> c \<noteq> [])"
proof -
  have h: "''under 10'' \<noteq> []" by simp
  show ?thesis using h cleaned_text_fallback [OF h] by blast
qed

text \<open>
  C2, as stated, fails. The fallback returns the raw query with its price phrase, so
  extracting again from the cleaned text of \<open>under 10\<close> finds the upper bound 10 again.
  And the squish can join the pieces around an erased phrase into a new phrase: the
  cleaned text of \<open>a 5 - over 1 2\<close> is \<open>a 5 - 2\<close>, from which a second extraction takes
  the interval and leaves the text \<open>a\<close>.
\<close>

theorem reextraction_not_idempotent:
  "extract_price_filters ''under 10'' = Inr (''under 10'', None, Some 10)
   \<and> extract_price_filters ''a 5 - over 1 2'' = Inr (''a 5 - 2'', Some 1, None)
   \<and> extract_price_filters ''a 5 - 2'' = Inr (''a'', Some 2, Some 5)"
  using eval_under_10 eval_squish_makes_phrase eval_squished_again by simp

text \<open>
  C2, amended. Let \<open>c\<close> be the cleaned text of a query \<open>q\<close>. When \<open>c\<close> is not the
  fallback (the squished working text of the first extraction is not empty), the
  second extraction starts from \<open>c\<close> between two spaces, neither soft pattern matches
  in it, and if none of the numeric patterns matches in it either, the second
  extraction returns \<open>c\<close> itself with an unconstrained range. In every case, a second
  extraction that returns an unconstrained range returns \<open>c\<close> unchanged. For example
  \<open>cheap towels under 10 dollars\<close> gives \<open>towels\<close> with max = 10, and \<open>towels\<close> gives
  \<open>towels\<close> with no bound.
\<close>

theorem reextraction_after_erasure:
  assumes st: "numeric_passes (initial q) = Inr st"
    and e1: "extract_price_filters q = Inr (c, mn, mx)"
  shows "(join '' '' (split (s_text (expensive_step (cheap_step st)))) \<noteq> [] \<longrightarrow>
            s_text (initial c) = '' '' @ c @ '' ''
          \<and> search_re cheap_pattern (s_text (initial c)) = None
          \<and> search_re expensive_pattern (s_text (initial c)) = None
          \<and> (list_all (\<lambda>pat. finditer pat (s_text (initial c)) = []) numeric_patterns
               \<longrightarrow> extract_price_filters c = Inr (c, None, None)))
       \<and> (\<forall>c'. extract_price_filters c = Inr (c', None, None) \<longrightarrow> c' = c)
       \<and> extract_price_filters ''cheap towels under 10 dollars'' = Inr (''towels'', None, Some 10)
       \<and> extract_price_filters ''towels'' = Inr (''towels'', None, None)"
proof -
  let ?sf = "s_text (expensive_step (cheap_step st))"
  let ?x = "join '' '' (split ?sf)"
  from extract_finish [OF st] e1 have c: "c = (if ?x = [] then q else ?x)"
    by (simp add: finish_def Let_def)
  have low: "lowered ?sf"
    using numeric_passes_lowered [OF st initial_lowered] by (rule soft_steps_lowered)
  have fp: "fst (plain_result c) = c" if n: "no_price_phrase c"
  proof (cases "?x = []")
    case True
    with c have cq: "c = q" by simp
    from e1 extract_no_phrase [OF n] have "plain_result c = (c, mn, mx)"
      unfolding cq by simp
    then show ?thesis by simp
  next
    case False
    with c have cx: "c = ?x" by simp
    from low have "lowered c" unfolding cx by (rule squish_lowered)
    then have lc: "lower c = c" by (rule lower_lowered)
    have "join '' '' (split (lower c)) = c"
      unfolding lc by (simp only: cx split_join_split)
    then show ?thesis by (simp add: plain_result_def Let_def)
  qed
  have res: "plain_result c = (fst (plain_result c), None, None)"
    by (simp add: plain_result_def Let_def)
  have fixed: "extract_price_filters c = Inr (c, None, None)" if n: "no_price_phrase c"
    using extract_no_phrase [OF n] res fp [OF n] by simp
  have a: "s_text (initial c) = '' '' @ c @ '' ''
          \<and> search_re cheap_pattern (s_text (initial c)) = None
          \<and> search_re expensive_pattern (s_text (initial c)) = None
          \<and> (list_all (\<lambda>pat. finditer pat (s_text (initial c)) = []) numeric_patterns
               \<longrightarrow> extract_price_filters c = Inr (c, None, None))"
    if nf: "?x \<noteq> []"
  proof -
    from nf c have cx: "c = ?x" by simp
    have i: "s_text (initial c) = '' '' @ c @ '' ''"
      unfolding cx using low by (rule initial_squish)
    have sc: "search_re cheap_pattern (s_text (initial c)) = None"
      unfolding i unfolding cx
      using soft_cheap soft_steps_erase [THEN conjunct1] by (rule squish_soft_free(2))
    have se: "search_re expensive_pattern (s_text (initial c)) = None"
      unfolding i unfolding cx
      using soft_expensive soft_steps_erase [THEN conjunct2] by (rule squish_soft_free(2))
    have "extract_price_filters c = Inr (c, None, None)"
      if "list_all (\<lambda>pat. finditer pat (s_text (initial c)) = []) numeric_patterns"
      using that sc se by (intro fixed) (simp add: no_price_phrase_def Let_def)
    with i sc se show ?thesis by blast
  qed
  have b: "\<forall>c'. extract_price_filters c = Inr (c', None, None) \<longrightarrow> c' = c"
  proof (intro allI impI)
    fix c' assume e2: "extract_price_filters c = Inr (c', None, None)"
    then have "no_price_phrase c" by (rule extract_unbounded)
    from fixed [OF this] e2 show "c' = c" by simp
  qed
  from a b eval_cheap_towels_under eval_towels show ?thesis by blast
qed

theorem reextraction_after_erasure_witness:
  "numeric_passes (initial ''cheap towels under 10 dollars'')
     = Inr \<lparr>s_text = '' cheap towels   '', min_price = None, max_price = Some 10\<rparr>
   \<and> extract_price_filters ''cheap towels under 10 dollars'' = Inr (''towels'', None, Some 10)
   \<and> join '' '' (split (s_text (expensive_step (cheap_step
        \<lparr>s_text = '' cheap towels   '', min_price = None, max_price = Some 10\<rparr>)))) \<noteq> []
   \<and> list_all (\<lambda>pat. finditer pat (s_text (initial ''towels'')) = []) numeric_patterns
   \<and> search_re cheap_pattern (s_text (initial ''towels'')) = None
   \<and> search_re expensive_pattern (s_text (initial ''towels'')) = None
   \<and> extract_price_filters ''towels'' = Inr (''towels'', None, None)"
proof -
  let ?st = "\<lparr>s_text = '' cheap towels   '', min_price = None, max_price = Some 10\<rparr>"
  have h1: "numeric_passes (initial ''cheap towels under 10 dollars'') = Inr ?st" by code_simp
  have h2: "extract_price_filters ''cheap towels under 10 dollars''
              = Inr (''towels'', None, Some 10)"
    by (rule eval_cheap_towels_under)
  have h3: "join '' '' (split (s_text (expensive_step (cheap_step ?st)))) \<noteq> []" by code_simp
  have h4: "list_all (\<lambda>pat. finditer pat (s_text (initial ''towels'')) = []) numeric_patterns"
    by code_simp
  show ?thesis using h1 h2 h3 h4 reextraction_after_erasure [OF h1 h2] by blast
qed

text \<open>
  C5, as stated, fails: the cleaned text is made from the lower-cased working text, so
  for \<open>Red Towels\<close>, which has no price phrase, it is \<open>red towels\<close> and not the trimmed
  original.
\<close>

theorem cleaned_text_is_lowercased:
  "extract_price_filters ''Red Towels'' = Inr (''red towels'', None, None)
   \<and> strip ''Red Towels'' = ''Red Towels''
   \<and> ''red towels'' \<noteq> ''Red Towels''"
proof -
  have "strip ''Red Towels'' = ''Red Towels''" by code_simp
  with eval_red_towels show ?thesis by simp
qed

text \<open>
  C5, amended. The extractor raises no exception: every query has a result. For a
  query with no price phrase the range is unconstrained and the cleaned text is the
  lower-cased query with its whitespace runs collapsed to single spaces and its ends
  trimmed, or the raw query when that is empty; for the empty query it is empty.
\<close>

theorem never_fails_plain_text:
  "(\<exists>c mn mx. extract_price_filters q = Inr (c, mn, mx))
   \<and> (no_price_phrase q \<longrightarrow> extract_price_filters q = Inr (plain_result q))
   \<and> extract_price_filters [] = Inr ([], None, None)"
  using extract_total [of q] extract_no_phrase [of q] eval_empty by blast

theorem never_fails_plain_text_witness:
  "no_price_phrase ''Red Towels''
   \<and> extract_price_filters ''Red Towels'' = Inr (plain_result ''Red Towels'')
   \<and> plain_result ''Red Towels'' = (''red towels'', None, None)"
proof -
  have h: "no_price_phrase ''Red Towels''" using eval_red_towels by (rule extract_unbounded)
  have "extract_price_filters ''Red Towels'' = Inr (plain_result ''Red Towels'')"
    using h never_fails_plain_text [of "''Red Towels''"] by blast
  with h eval_red_towels show ?thesis by simp
qed

end
